theory Spec2Isabelle
  imports Complex_Main "HOL-Library.Word"
begin

unbundle bit_operations_syntax

section \<open>Verstable: an open-addressing hash table with per-bucket chains\<close>

text \<open>
  A shallow embedding of \<^verbatim>\<open>verstable.h\<close> (v1.0.0). The template parameters of the
  header are taken as they are instantiated: a key type \<open>'k\<close>, a value type \<open>'v\<close>
  (\<^verbatim>\<open>VAL_TY\<close> defined, a map), and a configuration holding \<^verbatim>\<open>HASH_FN\<close>,
  \<^verbatim>\<open>CMPR_FN\<close> and \<^verbatim>\<open>MAX_LOAD\<close>. No destructor is configured.

  Conventions of the model.
  \<^item> \<^verbatim>\<open>size_t\<close> values are natural numbers; an array of \<open>2 ^ 64\<close> elements cannot be
    allocated, so no count or index of the program wraps around.
  \<^item> \<^verbatim>\<open>uint16_t\<close> metadata are \<open>16 word\<close>, hash codes are \<open>64 word\<close>.
  \<^item> \<^verbatim>\<open>MAX_LOAD\<close> is the rational value of the floating-point constant. On a
    power-of-two bucket count below \<open>2 ^ 53\<close> the product \<^verbatim>\<open>bucket_count * MAX_LOAD\<close> is
    exact in double precision, so the comparisons of the source are the rational ones.
  \<^item> A function of the source that contains a \<^verbatim>\<open>while( true )\<close> loop returns an
    \<open>option\<close>: \<open>None\<close> says that the call does not return.
  \<^item> Pointers into the metadata and bucket arrays are offsets from the array's base;
    \<open>None\<close> is \<^verbatim>\<open>NULL\<close>.
\<close>

subsection \<open>Metadata primitives\<close>

definition VT_EMPTY :: "16 word" where
  "VT_EMPTY = 0x0000"

definition VT_HASH_FRAG_MASK :: "16 word" where
  "VT_HASH_FRAG_MASK = 0xF000"

definition VT_IN_HOME_BUCKET_MASK :: "16 word" where
  "VT_IN_HOME_BUCKET_MASK = 0x0800"

definition VT_DISPLACEMENT_MASK :: "16 word" where
  "VT_DISPLACEMENT_MASK = 0x07FF"

definition VT_HASH_FRAG :: "64 word \<Rightarrow> 16 word" where
  "VT_HASH_FRAG hash = ucast (drop_bit 48 hash) AND VT_HASH_FRAG_MASK"

definition VT_QUADRATIC :: "nat \<Rightarrow> nat" where
  "VT_QUADRATIC displacement = (displacement * displacement + displacement) div 2"

definition VT_MIN_NONZERO_BUCKET_COUNT :: nat where
  "VT_MIN_NONZERO_BUCKET_COUNT = 8"

definition SIZE_MAX :: nat where
  "SIZE_MAX = 2 ^ 64 - 1"

definition vt_placeholder_metadata_buffer :: "16 word list" where
  "vt_placeholder_metadata_buffer = [0xFFFF, 0xFFFF, 0xFFFF, 0xFFFF]"

text \<open>
  \<^verbatim>\<open>vt_first_nonzero_uint16\<close>, in its portable variant. The \<^verbatim>\<open>uint64_t\<close> argument was
  copied from four consecutive metadata; it is given here as these four lanes in memory
  order. The first \<^verbatim>\<open>memcpy\<close> reads lanes 0 and 1, the second reads lane \<open>result\<close>.
\<close>

definition vt_first_nonzero_uint16 :: "16 word list \<Rightarrow> nat" where
  "vt_first_nonzero_uint16 lanes =
     (let result = (if lanes ! 0 = 0 \<and> lanes ! 1 = 0 then 2 else 0) in
      if lanes ! result = 0 then result + 1 else result)"

definition vt_hash_integer :: "64 word \<Rightarrow> 64 word" where
  "vt_hash_integer k0 =
     (let k1 = k0 XOR drop_bit 33 k0;
          k2 = k1 * 0xff51afd7ed558ccd;
          k3 = k2 XOR drop_bit 33 k2;
          k4 = k3 * 0xc4ceb9fe1a85ec53
      in k4 XOR drop_bit 33 k4)"

definition vt_cmpr_integer :: "64 word \<Rightarrow> 64 word \<Rightarrow> bool" where
  "vt_cmpr_integer key_1 key_2 = (key_1 = key_2)"

subsection \<open>Structs\<close>

record ('k, 'v) bucket =
  key :: 'k
  val :: 'v

text \<open>
  The two array handles of a table. The metadata handle is null, the shared placeholder
  buffer, an allocated array, or a pointer left behind by \<^verbatim>\<open>FREE_FN\<close>; the bucket
  handle is null, an allocated array, or a pointer left behind by \<^verbatim>\<open>FREE_FN\<close>. Memory
  that has been freed has no contents to read.
\<close>

datatype metadata_ptr = NullMeta | Placeholder | Meta "16 word list" | FreedMeta

datatype ('k, 'v) buckets_ptr = NullBuckets | Buckets "('k, 'v) bucket list" | FreedBuckets

fun words :: "metadata_ptr \<Rightarrow> 16 word list" where
  "words Placeholder = vt_placeholder_metadata_buffer"
| "words (Meta ws) = ws"
| "words NullMeta = []"
| "words FreedMeta = []"

fun entries :: "('k, 'v) buckets_ptr \<Rightarrow> ('k, 'v) bucket list" where
  "entries (Buckets bs) = bs"
| "entries NullBuckets = []"
| "entries FreedBuckets = []"

record ('k, 'v) table =
  key_count :: nat
  bucket_count :: nat
  metadata :: metadata_ptr
  buckets :: "('k, 'v) buckets_ptr"

record itr =
  data :: "nat option"
  metadatum :: "nat option"
  metadata_end :: "nat option"
  home_bucket :: nat

record 'k config =
  HASH_FN :: "'k \<Rightarrow> 64 word"
  CMPR_FN :: "'k \<Rightarrow> 'k \<Rightarrow> bool"
  MAX_LOAD :: rat

text \<open>Array reads and writes \<^verbatim>\<open>table->metadata[ i ]\<close> and \<^verbatim>\<open>table->buckets[ i ]\<close>.\<close>

definition md :: "('k, 'v) table \<Rightarrow> nat \<Rightarrow> 16 word" where
  "md t i = words (metadata t) ! i"

definition bkt :: "('k, 'v) table \<Rightarrow> nat \<Rightarrow> ('k, 'v) bucket" where
  "bkt t i = entries (buckets t) ! i"

definition set_md :: "('k, 'v) table \<Rightarrow> nat \<Rightarrow> 16 word \<Rightarrow> ('k, 'v) table" where
  "set_md t i w = t\<lparr>metadata := Meta ((words (metadata t))[i := w])\<rparr>"

definition set_bkt :: "('k, 'v) table \<Rightarrow> nat \<Rightarrow> ('k, 'v) bucket \<Rightarrow> ('k, 'v) table" where
  "set_bkt t i b = t\<lparr>buckets := Buckets ((entries (buckets t))[i := b])\<rparr>"

text \<open>\<^verbatim>\<open>( home_bucket + VT_QUADRATIC( displacement ) ) & ( table->bucket_count - 1 )\<close>\<close>

definition probe :: "('k, 'v) table \<Rightarrow> nat \<Rightarrow> nat \<Rightarrow> nat" where
  "probe t home displacement =
     (home + VT_QUADRATIC displacement) AND (bucket_count t - 1)"

definition displacement_of :: "16 word \<Rightarrow> nat" where
  "displacement_of w = unat (w AND VT_DISPLACEMENT_MASK)"

definition home_of :: "'k config \<Rightarrow> ('k, 'v) table \<Rightarrow> 'k \<Rightarrow> nat" where
  "home_of c t k = unat (HASH_FN c k) AND (bucket_count t - 1)"

subsection \<open>Initialisation and simple queries\<close>

text \<open>
  The public functions carry the names of the generic API (\<^verbatim>\<open>vt_init\<close> for
  \<^verbatim>\<open>NAME_init\<close>, and so on).
\<close>

definition vt_init :: "('k, 'v) table" where
  "vt_init =
     \<lparr>key_count = 0, bucket_count = 0, metadata = Placeholder, buckets = NullBuckets\<rparr>"

definition vt_size :: "('k, 'v) table \<Rightarrow> nat" where
  "vt_size t = key_count t"

definition vt_bucket_count :: "('k, 'v) table \<Rightarrow> nat" where
  "vt_bucket_count t = bucket_count t"

definition vt_is_end :: "itr \<Rightarrow> bool" where
  "vt_is_end it = (metadatum it = metadata_end it)"

definition end_itr :: "('k, 'v) table \<Rightarrow> itr" where
  "end_itr t = \<lparr>data = None, metadatum = None, metadata_end = None, home_bucket = 0\<rparr>"

subsection \<open>Chain helpers\<close>

text \<open>
  \<^verbatim>\<open>NAME_find_first_empty\<close>: \<open>None\<close> is the result \<^verbatim>\<open>false\<close>, \<open>Some (empty, displacement)\<close>
  the result \<^verbatim>\<open>true\<close> with the two output arguments. The loop ends because the
  16-bit counter reaches the displacement limit.
\<close>

function find_first_empty_loop ::
  "('k, 'v) table \<Rightarrow> nat \<Rightarrow> 16 word \<Rightarrow> nat \<Rightarrow> (nat \<times> 16 word) option" where
  "find_first_empty_loop t home displacement linear_displacement =
     (let empty_bucket = (home + linear_displacement) AND (bucket_count t - 1) in
      if md t empty_bucket = VT_EMPTY then Some (empty_bucket, displacement)
      else if displacement + 1 = VT_DISPLACEMENT_MASK then None
      else find_first_empty_loop t home (displacement + 1)
             (linear_displacement + unat (displacement + 1)))"
  by pat_completeness auto
termination
proof (relation "measure (\<lambda>(t, home, d, l). unat (VT_DISPLACEMENT_MASK - 1 - d))")
  show "wf (measure (\<lambda>(t :: ('k, 'v) table, home :: nat, d :: 16 word, l :: nat).
    unat (VT_DISPLACEMENT_MASK - 1 - d)))"
    by simp
next
  fix t :: "('k, 'v) table" and home :: nat and displacement :: "16 word"
    and linear_displacement x :: nat
  assume ne: "displacement + 1 \<noteq> VT_DISPLACEMENT_MASK"
  have nz: "VT_DISPLACEMENT_MASK - 1 - displacement \<noteq> 0"
  proof
    assume "VT_DISPLACEMENT_MASK - 1 - displacement = 0"
    then have "VT_DISPLACEMENT_MASK = displacement + 1" by (simp add: algebra_simps)
    with ne show False by simp
  qed
  have "VT_DISPLACEMENT_MASK - 1 - (displacement + 1)
      = (VT_DISPLACEMENT_MASK - 1 - displacement) - 1"
    by simp
  then have "unat (VT_DISPLACEMENT_MASK - 1 - (displacement + 1))
      = unat (VT_DISPLACEMENT_MASK - 1 - displacement) - 1"
    using unat_minus_one [OF nz] by simp
  moreover have "unat (VT_DISPLACEMENT_MASK - 1 - displacement) \<noteq> 0"
    using nz by (simp add: unat_eq_0)
  ultimately have "unat (VT_DISPLACEMENT_MASK - 1 - (displacement + 1))
      < unat (VT_DISPLACEMENT_MASK - 1 - displacement)"
    by linarith
  then show "((t, home, displacement + 1, linear_displacement + unat (displacement + 1)),
      (t, home, displacement, linear_displacement))
    \<in> measure (\<lambda>(t, home, d, l). unat (VT_DISPLACEMENT_MASK - 1 - d))"
    by simp
qed

definition find_first_empty ::
  "('k, 'v) table \<Rightarrow> nat \<Rightarrow> (nat \<times> 16 word) option" where
  "find_first_empty t home = find_first_empty_loop t home 1 1"

text \<open>\<^verbatim>\<open>NAME_find_insert_location_in_chain\<close>; the last argument is \<^verbatim>\<open>candidate\<close>.\<close>

partial_function (option) find_insert_location_loop ::
  "('k, 'v) table \<Rightarrow> nat \<Rightarrow> nat \<Rightarrow> nat \<Rightarrow> nat option" where
  "find_insert_location_loop t home displacement_to_empty candidate =
     (let displacement = displacement_of (md t candidate) in
      if displacement > displacement_to_empty then Some candidate
      else find_insert_location_loop t home displacement_to_empty
             (probe t home displacement))"

definition find_insert_location_in_chain ::
  "('k, 'v) table \<Rightarrow> nat \<Rightarrow> nat \<Rightarrow> nat option" where
  "find_insert_location_in_chain t home displacement_to_empty =
     find_insert_location_loop t home displacement_to_empty home"

text \<open>
  The first loop of \<^verbatim>\<open>NAME_evict\<close>: the key of the chain of \<open>home\<close> that precedes
  \<open>bucket\<close>.
\<close>

partial_function (option) find_prev ::
  "('k, 'v) table \<Rightarrow> nat \<Rightarrow> nat \<Rightarrow> nat \<Rightarrow> nat option" where
  "find_prev t home bucket prev =
     (let next = probe t home (displacement_of (md t prev)) in
      if next = bucket then Some prev
      else find_prev t home bucket next)"

text \<open>
  \<^verbatim>\<open>NAME_evict\<close> returns its boolean together with the table as it has left it. The
  key is disconnected from its chain before the empty bucket is looked for, so the
  result \<^verbatim>\<open>false\<close> comes with the table already changed.
\<close>

definition evict ::
  "'k config \<Rightarrow> ('k, 'v) table \<Rightarrow> nat \<Rightarrow> (bool \<times> ('k, 'v) table) option" where
  "evict c t bucket =
     (let home = home_of c t (key (bkt t bucket)) in
      case find_prev t home bucket home of
        None \<Rightarrow> None
      | Some prev \<Rightarrow>
          let t1 = set_md t prev
                ((md t prev AND NOT VT_DISPLACEMENT_MASK)
                  OR (md t bucket AND VT_DISPLACEMENT_MASK)) in
          (case find_first_empty t1 home of
            None \<Rightarrow> Some (False, t1)
          | Some (empty_bucket, displacement) \<Rightarrow>
              (case find_insert_location_in_chain t1 home (unat displacement) of
                None \<Rightarrow> None
              | Some prev' \<Rightarrow>
                  let t2 = set_bkt t1 empty_bucket (bkt t1 bucket);
                      t3 = set_md t2 empty_bucket
                        ((md t2 bucket AND VT_HASH_FRAG_MASK)
                          OR (md t2 prev' AND VT_DISPLACEMENT_MASK));
                      t4 = set_md t3 prev'
                        ((md t3 prev' AND NOT VT_DISPLACEMENT_MASK) OR displacement)
                  in Some (True, t4))))"

subsection \<open>Insertion\<close>

text \<open>
  The chain traversal of \<^verbatim>\<open>NAME_insert_raw\<close> (when \<^verbatim>\<open>unique\<close> is false) and of
  \<^verbatim>\<open>NAME_get\<close>: the two loops are the same text. \<open>Some (Some bucket)\<close> is a match at
  \<open>bucket\<close>, \<open>Some None\<close> the end of the chain.
\<close>

partial_function (option) chain_lookup ::
  "'k config \<Rightarrow> ('k, 'v) table \<Rightarrow> nat \<Rightarrow> 16 word \<Rightarrow> 'k \<Rightarrow> nat \<Rightarrow> nat option option" where
  "chain_lookup c t home hashfrag k bucket =
     (if md t bucket AND VT_HASH_FRAG_MASK = hashfrag \<and> CMPR_FN c (key (bkt t bucket)) k
      then Some (Some bucket)
      else
        let displacement = md t bucket AND VT_DISPLACEMENT_MASK in
        if displacement = VT_DISPLACEMENT_MASK then Some None
        else chain_lookup c t home hashfrag k (probe t home (unat displacement)))"

definition itr_at :: "('k, 'v) table \<Rightarrow> nat \<Rightarrow> nat \<Rightarrow> itr" where
  "itr_at t bucket home =
     \<lparr>data = Some bucket, metadatum = Some bucket,
      metadata_end = Some (bucket_count t), home_bucket = home\<rparr>"

definition load_exceeded :: "'k config \<Rightarrow> ('k, 'v) table \<Rightarrow> bool" where
  "load_exceeded c t =
     (of_nat (key_count t + 1) > of_nat (bucket_count t) * MAX_LOAD c)"

definition insert_raw ::
  "'k config \<Rightarrow> ('k, 'v) table \<Rightarrow> 'k \<Rightarrow> 'v \<Rightarrow> bool \<Rightarrow> bool \<Rightarrow> (itr \<times> ('k, 'v) table) option"
  where
  "insert_raw c t k v unique replace =
     (if bucket_count t = 0 then Some (end_itr t, t)
      else
        let hash = HASH_FN c k;
            home = unat hash AND (bucket_count t - 1);
            hashfrag = VT_HASH_FRAG hash
        in
        if md t home AND VT_IN_HOME_BUCKET_MASK = 0 then
          (if load_exceeded c t then Some (end_itr t, t)
           else
             case (if md t home \<noteq> VT_EMPTY then evict c t home else Some (True, t)) of
               None \<Rightarrow> None
             | Some (evicted, t1) \<Rightarrow>
                 if \<not> evicted then Some (end_itr t1, t1)
                 else
                   let t2 = set_bkt t1 home \<lparr>key = k, val = v\<rparr>;
                       t3 = set_md t2 home
                         (hashfrag OR VT_IN_HOME_BUCKET_MASK OR VT_DISPLACEMENT_MASK);
                       t4 = t3\<lparr>key_count := key_count t3 + 1\<rparr>
                   in Some (itr_at t4 home home, t4))
        else
          case (if \<not> unique then chain_lookup c t home hashfrag k home else Some None) of
            None \<Rightarrow> None
          | Some (Some bucket) \<Rightarrow>
              let t1 = (if replace then set_bkt t bucket \<lparr>key = k, val = v\<rparr> else t)
              in Some (itr_at t1 bucket home, t1)
          | Some None \<Rightarrow>
              if load_exceeded c t then Some (end_itr t, t)
              else
                (case find_first_empty t home of
                  None \<Rightarrow> Some (end_itr t, t)
                | Some (empty_bucket, displacement) \<Rightarrow>
                    (case find_insert_location_in_chain t home (unat displacement) of
                      None \<Rightarrow> None
                    | Some prev \<Rightarrow>
                        let t1 = set_bkt t empty_bucket \<lparr>key = k, val = v\<rparr>;
                            t2 = set_md t1 empty_bucket
                              (hashfrag OR (md t1 prev AND VT_DISPLACEMENT_MASK));
                            t3 = set_md t2 prev
                              ((md t2 prev AND NOT VT_DISPLACEMENT_MASK) OR displacement);
                            t4 = t3\<lparr>key_count := key_count t3 + 1\<rparr>
                        in Some (itr_at t4 empty_bucket home, t4))))"

subsection \<open>The allocator\<close>

text \<open>
  \<^verbatim>\<open>MALLOC_FN\<close> is an oracle: \<open>outcomes a n\<close> says whether the \<open>n\<close>-th call returns
  memory, \<open>used a\<close> counts the calls made so far. Every run of the program against any
  allocator is covered by some oracle. \<^verbatim>\<open>FREE_FN\<close> changes no value the functions
  compute with; where a freed pointer stays in a struct, the handle becomes
  \<open>FreedMeta\<close> or \<open>FreedBuckets\<close>.
\<close>

record allocator =
  outcomes :: "nat \<Rightarrow> bool"
  used :: nat

definition MALLOC_FN :: "allocator \<Rightarrow> bool \<times> allocator" where
  "MALLOC_FN a = (outcomes a (used a), a\<lparr>used := used a + 1\<rparr>)"

datatype fault = UseAfterFree

subsection \<open>Rehash\<close>

text \<open>
  The \<^verbatim>\<open>for\<close> loop of \<^verbatim>\<open>NAME_rehash\<close>, from \<open>bucket\<close> on. When a reinsertion returns
  an end iterator the source frees the two new arrays, doubles its local
  \<^verbatim>\<open>bucket_count\<close> and executes \<^verbatim>\<open>continue\<close>, which (standing in the body of the
  \<^verbatim>\<open>for\<close> loop) goes on with the next bucket, not with the next round of the
  enclosing \<^verbatim>\<open>while( true )\<close>. From then on \<open>new_table\<close> holds freed arrays: the next
  reinsertion writes to freed memory (\<open>Inl UseAfterFree\<close>), and if no occupied bucket
  follows, the loop ends with the freed handles still in \<open>new_table\<close>.
\<close>

function rehash_reinsert ::
  "'k config \<Rightarrow> ('k, 'v) table \<Rightarrow> ('k, 'v) table \<Rightarrow> nat \<Rightarrow> (fault + ('k, 'v) table) option"
  where
  "rehash_reinsert c t new_table bucket =
     (if bucket < bucket_count t then
        if md t bucket \<noteq> VT_EMPTY then
          if metadata new_table = FreedMeta then Some (Inl UseAfterFree)
          else
            case insert_raw c new_table (key (bkt t bucket)) (val (bkt t bucket)) True False of
              None \<Rightarrow> None
            | Some (it, new_table') \<Rightarrow>
                if vt_is_end it then
                  rehash_reinsert c t
                    (new_table'\<lparr>metadata := FreedMeta, buckets := FreedBuckets\<rparr>) (bucket + 1)
                else rehash_reinsert c t new_table' (bucket + 1)
        else rehash_reinsert c t new_table (bucket + 1)
      else Some (Inr new_table))"
  by pat_completeness auto
termination
  by (relation "measure (\<lambda>(c, t, new_table, bucket). bucket_count t - bucket)") auto

text \<open>
  \<^verbatim>\<open>NAME_rehash\<close>. The new bucket array is uninitialised memory. Since the
  \<^verbatim>\<open>continue\<close> never reaches the \<^verbatim>\<open>while( true )\<close>, its body runs once: the function
  returns \<^verbatim>\<open>false\<close> after a failed allocation, and otherwise installs \<open>new_table\<close> and
  returns \<^verbatim>\<open>true\<close>.
\<close>

definition fresh_table :: "nat \<Rightarrow> ('k, 'v) table" where
  "fresh_table n =
     \<lparr>key_count = 0, bucket_count = n,
      metadata = Meta (replicate n 0x0000 @ replicate 4 0xFFFF),
      buckets = Buckets (replicate n undefined)\<rparr>"

definition rehash ::
  "'k config \<Rightarrow> allocator \<Rightarrow> ('k, 'v) table \<Rightarrow> nat
    \<Rightarrow> (fault + bool \<times> ('k, 'v) table \<times> allocator) option" where
  "rehash c a t n =
     (let (metadata_ok, a1) = MALLOC_FN a;
          (buckets_ok, a2) = MALLOC_FN a1
      in
      if \<not> metadata_ok \<or> \<not> buckets_ok then Some (Inr (False, t, a2))
      else
        case rehash_reinsert c t (fresh_table n) 0 of
          None \<Rightarrow> None
        | Some (Inl f) \<Rightarrow> Some (Inl f)
        | Some (Inr new_table) \<Rightarrow> Some (Inr (True, new_table, a2)))"

subsection \<open>Public insertion\<close>

definition grown_bucket_count :: "('k, 'v) table \<Rightarrow> nat" where
  "grown_bucket_count t =
     (if bucket_count t \<noteq> 0 then bucket_count t * 2 else VT_MIN_NONZERO_BUCKET_COUNT)"

text \<open>
  The loop shared by \<^verbatim>\<open>NAME_insert\<close> (\<open>replace\<close> true) and \<^verbatim>\<open>NAME_get_or_insert\<close>
  (\<open>replace\<close> false), which differ in this argument only. When \<^verbatim>\<open>NAME_rehash\<close> has
  returned \<^verbatim>\<open>true\<close> with freed arrays installed, the next call of
  \<^verbatim>\<open>NAME_insert_raw\<close> reads freed memory.
\<close>

partial_function (option) insert_loop ::
  "'k config \<Rightarrow> bool \<Rightarrow> allocator \<Rightarrow> ('k, 'v) table \<Rightarrow> 'k \<Rightarrow> 'v
    \<Rightarrow> (fault + itr \<times> ('k, 'v) table \<times> allocator) option" where
  "insert_loop c replace a t k v =
     (case insert_raw c t k v False replace of
        None \<Rightarrow> None
      | Some (it, t1) \<Rightarrow>
          if \<not> vt_is_end it then Some (Inr (it, t1, a))
          else
            (case rehash c a t1 (grown_bucket_count t1) of
              None \<Rightarrow> None
            | Some (Inl f) \<Rightarrow> Some (Inl f)
            | Some (Inr (ok, t2, a2)) \<Rightarrow>
                if \<not> ok then Some (Inr (it, t2, a2))
                else if metadata t2 = FreedMeta then Some (Inl UseAfterFree)
                else insert_loop c replace a2 t2 k v))"

definition vt_insert ::
  "'k config \<Rightarrow> allocator \<Rightarrow> ('k, 'v) table \<Rightarrow> 'k \<Rightarrow> 'v
    \<Rightarrow> (fault + itr \<times> ('k, 'v) table \<times> allocator) option" where
  "vt_insert c a t k v = insert_loop c True a t k v"

definition vt_get_or_insert ::
  "'k config \<Rightarrow> allocator \<Rightarrow> ('k, 'v) table \<Rightarrow> 'k \<Rightarrow> 'v
    \<Rightarrow> (fault + itr \<times> ('k, 'v) table \<times> allocator) option" where
  "vt_get_or_insert c a t k v = insert_loop c False a t k v"

subsection \<open>Lookup\<close>

definition vt_get :: "'k config \<Rightarrow> ('k, 'v) table \<Rightarrow> 'k \<Rightarrow> itr option" where
  "vt_get c t k =
     (if key_count t = 0 then Some (end_itr t)
      else
        let hash = HASH_FN c k;
            home = unat hash AND (bucket_count t - 1);
            hashfrag = VT_HASH_FRAG hash
        in
        if md t home AND VT_IN_HOME_BUCKET_MASK = 0 then Some (end_itr t)
        else
          case chain_lookup c t home hashfrag k home of
            None \<Rightarrow> None
          | Some None \<Rightarrow> Some (end_itr t)
          | Some (Some bucket) \<Rightarrow> Some (itr_at t bucket home))"

subsection \<open>Erasure\<close>

text \<open>
  The loop of case 3 of \<^verbatim>\<open>NAME_erase_itr_raw\<close>: from \<open>bucket\<close>, the last key of the
  chain and the key before it, as \<open>(prev, bucket)\<close>.
\<close>

partial_function (option) find_last ::
  "('k, 'v) table \<Rightarrow> nat \<Rightarrow> nat \<Rightarrow> (nat \<times> nat) option" where
  "find_last t home bucket =
     (let prev = bucket;
          bucket' = probe t home (displacement_of (md t bucket))
      in
      if md t bucket' AND VT_DISPLACEMENT_MASK = VT_DISPLACEMENT_MASK
      then Some (prev, bucket')
      else find_last t home bucket')"

text \<open>
  \<^verbatim>\<open>NAME_erase_itr_raw\<close>. The loop of case 2 is the loop of \<^verbatim>\<open>NAME_evict\<close> that finds
  the previous key of the chain (\<open>find_prev\<close>).
\<close>

definition erase_itr_raw ::
  "'k config \<Rightarrow> ('k, 'v) table \<Rightarrow> itr \<Rightarrow> (bool \<times> ('k, 'v) table) option" where
  "erase_itr_raw c t0 it =
     (let t = t0\<lparr>key_count := key_count t0 - 1\<rparr>;
          itr_bucket = the (metadatum it)
      in
      if md t itr_bucket AND VT_IN_HOME_BUCKET_MASK \<noteq> 0
         \<and> md t itr_bucket AND VT_DISPLACEMENT_MASK = VT_DISPLACEMENT_MASK
      then Some (True, set_md t itr_bucket VT_EMPTY)
      else
        let home =
          (if home_bucket it = SIZE_MAX then
             if md t itr_bucket AND VT_IN_HOME_BUCKET_MASK \<noteq> 0 then itr_bucket
             else home_of c t (key (bkt t itr_bucket))
           else home_bucket it)
        in
        if md t itr_bucket AND VT_DISPLACEMENT_MASK = VT_DISPLACEMENT_MASK then
          (case find_prev t home itr_bucket home of
            None \<Rightarrow> None
          | Some bucket \<Rightarrow>
              let t1 = set_md t bucket (md t bucket OR VT_DISPLACEMENT_MASK);
                  t2 = set_md t1 itr_bucket VT_EMPTY
              in Some (True, t2))
        else
          (case find_last t home itr_bucket of
            None \<Rightarrow> None
          | Some (prev, bucket) \<Rightarrow>
              let t1 = set_bkt t itr_bucket (bkt t bucket);
                  t2 = set_md t1 itr_bucket
                    ((md t1 itr_bucket AND NOT VT_HASH_FRAG_MASK)
                      OR (md t1 bucket AND VT_HASH_FRAG_MASK));
                  t3 = set_md t2 prev (md t2 prev OR VT_DISPLACEMENT_MASK);
                  t4 = set_md t3 bucket VT_EMPTY
              in if bucket > itr_bucket then Some (False, t4) else Some (True, t4)))"

definition vt_erase ::
  "'k config \<Rightarrow> ('k, 'v) table \<Rightarrow> 'k \<Rightarrow> (bool \<times> ('k, 'v) table) option" where
  "vt_erase c t k =
     (case vt_get c t k of
        None \<Rightarrow> None
      | Some it \<Rightarrow>
          if vt_is_end it then Some (False, t)
          else
            (case erase_itr_raw c t it of
              None \<Rightarrow> None
            | Some (advance, t') \<Rightarrow> Some (True, t')))"

subsection \<open>Iteration\<close>

text \<open>
  \<^verbatim>\<open>NAME_fast_forward\<close> on the metadata array \<open>ws\<close>, from offset \<open>i\<close>: the offset it
  stops at. Each round reads the four metadata at \<open>i\<close>; a read beyond the array has
  no defined result (\<open>None\<close>).
\<close>

function fast_forward_loop :: "16 word list \<Rightarrow> nat \<Rightarrow> nat option" where
  "fast_forward_loop ws i =
     (if length ws < i + 4 then None
      else
        let lanes = take 4 (drop i ws) in
        if list_ex (\<lambda>w. w \<noteq> 0) lanes then Some (i + vt_first_nonzero_uint16 lanes)
        else fast_forward_loop ws (i + 4))"
  by pat_completeness auto
termination
  by (relation "measure (\<lambda>(ws, i). length ws - i)") auto

text \<open>
  The iterator functions take the table whose arrays the iterator points into: the
  C functions reach these arrays through the iterator's pointers.
\<close>

definition fast_forward :: "('k, 'v) table \<Rightarrow> itr \<Rightarrow> itr option" where
  "fast_forward t it =
     (case fast_forward_loop (words (metadata t)) (the (metadatum it)) of
        None \<Rightarrow> None
      | Some j \<Rightarrow>
          let offset = j - the (metadatum it) in
          Some (it\<lparr>data := map_option (\<lambda>d. d + offset) (data it),
                   metadatum := Some j, home_bucket := SIZE_MAX\<rparr>))"

definition vt_next :: "('k, 'v) table \<Rightarrow> itr \<Rightarrow> itr option" where
  "vt_next t it =
     fast_forward t
       (it\<lparr>data := map_option Suc (data it), metadatum := map_option Suc (metadatum it)\<rparr>)"

definition vt_first :: "('k, 'v) table \<Rightarrow> itr option" where
  "vt_first t =
     fast_forward t
       \<lparr>data = (case buckets t of NullBuckets \<Rightarrow> None | _ \<Rightarrow> Some 0),
        metadatum = Some 0, metadata_end = Some (bucket_count t), home_bucket = SIZE_MAX\<rparr>"

definition vt_erase_itr ::
  "'k config \<Rightarrow> ('k, 'v) table \<Rightarrow> itr \<Rightarrow> (itr \<times> ('k, 'v) table) option" where
  "vt_erase_itr c t it =
     (case erase_itr_raw c t it of
        None \<Rightarrow> None
      | Some (advance, t') \<Rightarrow>
          if advance then
            (case vt_next t' it of None \<Rightarrow> None | Some it' \<Rightarrow> Some (it', t'))
          else Some (it, t'))"

subsection \<open>Resizing, clearing and cleanup\<close>

partial_function (option) min_bucket_count_loop ::
  "'k config \<Rightarrow> nat \<Rightarrow> nat \<Rightarrow> nat option" where
  "min_bucket_count_loop c n bucket_count' =
     (if of_nat n > of_nat bucket_count' * MAX_LOAD c
      then min_bucket_count_loop c n (bucket_count' * 2)
      else Some bucket_count')"

definition min_bucket_count_for_size :: "'k config \<Rightarrow> nat \<Rightarrow> nat option" where
  "min_bucket_count_for_size c n =
     (if n = 0 then Some 0 else min_bucket_count_loop c n VT_MIN_NONZERO_BUCKET_COUNT)"

definition vt_reserve ::
  "'k config \<Rightarrow> allocator \<Rightarrow> ('k, 'v) table \<Rightarrow> nat
    \<Rightarrow> (fault + bool \<times> ('k, 'v) table \<times> allocator) option" where
  "vt_reserve c a t n =
     (case min_bucket_count_for_size c n of
        None \<Rightarrow> None
      | Some bucket_count' \<Rightarrow>
          if bucket_count' \<le> bucket_count t then Some (Inr (True, t, a))
          else rehash c a t bucket_count')"

text \<open>
  \<^verbatim>\<open>NAME_shrink\<close>. In the branch for a bucket count of zero the source frees both
  arrays, then assigns \<^verbatim>\<open>bucket_count\<close> and \<^verbatim>\<open>metadata\<close>; it does not assign
  \<^verbatim>\<open>buckets\<close>, which keeps pointing at the freed array.
\<close>

definition vt_shrink ::
  "'k config \<Rightarrow> allocator \<Rightarrow> ('k, 'v) table
    \<Rightarrow> (fault + bool \<times> ('k, 'v) table \<times> allocator) option" where
  "vt_shrink c a t =
     (case min_bucket_count_for_size c (key_count t) of
        None \<Rightarrow> None
      | Some bucket_count' \<Rightarrow>
          if bucket_count' = bucket_count t then Some (Inr (True, t, a))
          else if bucket_count' = 0 then
            Some (Inr (True,
              t\<lparr>bucket_count := 0, metadata := Placeholder, buckets := FreedBuckets\<rparr>, a))
          else rehash c a t bucket_count')"

function clear_loop :: "('k, 'v) table \<Rightarrow> nat \<Rightarrow> ('k, 'v) table" where
  "clear_loop t i =
     (if i < bucket_count t then clear_loop (set_md t i VT_EMPTY) (i + 1) else t)"
  by pat_completeness auto
termination
  by (relation "measure (\<lambda>(t, i). bucket_count t - i)") (auto simp: set_md_def)

definition vt_clear :: "('k, 'v) table \<Rightarrow> ('k, 'v) table" where
  "vt_clear t = (clear_loop t 0)\<lparr>key_count := 0\<rparr>"

definition vt_cleanup :: "('k, 'v) table \<Rightarrow> ('k, 'v) table" where
  "vt_cleanup t = (if bucket_count t = 0 then t else vt_init)"

text \<open>
  \<^verbatim>\<open>NAME_init_clone\<close> writes a table that was not initialised before; the model returns
  it. After a failed allocation each handle is null (its own allocation failed) or
  freed.
\<close>

definition vt_init_clone ::
  "allocator \<Rightarrow> ('k, 'v) table \<Rightarrow> bool \<times> ('k, 'v) table \<times> allocator" where
  "vt_init_clone a source =
     (if bucket_count source = 0 then
        (True,
         \<lparr>key_count = key_count source, bucket_count = bucket_count source,
          metadata = Placeholder, buckets = NullBuckets\<rparr>, a)
      else
        let (metadata_ok, a1) = MALLOC_FN a;
            (buckets_ok, a2) = MALLOC_FN a1
        in
        if \<not> metadata_ok \<or> \<not> buckets_ok then
          (False,
           \<lparr>key_count = key_count source, bucket_count = bucket_count source,
            metadata = (if metadata_ok then FreedMeta else NullMeta),
            buckets = (if buckets_ok then FreedBuckets else NullBuckets)\<rparr>, a2)
        else
          (True,
           \<lparr>key_count = key_count source, bucket_count = bucket_count source,
            metadata = Meta (take (bucket_count source + 4) (words (metadata source))),
            buckets = Buckets (take (bucket_count source) (entries (buckets source)))\<rparr>, a2))"

section \<open>Properties\<close>

subsection \<open>The fields of a metadatum\<close>

definition frag_of :: "16 word \<Rightarrow> 16 word" where
  "frag_of w = w AND VT_HASH_FRAG_MASK"

definition in_home :: "16 word \<Rightarrow> bool" where
  "in_home w = (w AND VT_IN_HOME_BUCKET_MASK \<noteq> 0)"

lemma and_mask_mod: "(x::nat) AND (2 ^ j - 1) = x mod 2 ^ j"
  by (metis mask_eq_exp_minus_1 take_bit_eq_mask take_bit_nat_def)

lemma and_mask_less: "0 < n \<Longrightarrow> (x::nat) AND (n - 1) < n"
proof -
  assume "0 < n"
  have "int (x AND (n - 1)) \<le> int (n - 1)"
    unfolding of_nat_and_eq by (rule AND_upper2) simp
  then show ?thesis using \<open>0 < n\<close> by linarith
qed

lemma bit_DISP: "bit VT_DISPLACEMENT_MASK n \<longleftrightarrow> n < 11"
proof -
  have "VT_DISPLACEMENT_MASK = mask 11" by (simp add: VT_DISPLACEMENT_MASK_def mask_eq_exp_minus_1)
  show ?thesis unfolding \<open>VT_DISPLACEMENT_MASK = mask 11\<close> by (auto simp: bit_mask_iff)
qed

lemma bit_HOME: "bit VT_IN_HOME_BUCKET_MASK n \<longleftrightarrow> n = 11"
proof -
  have "VT_IN_HOME_BUCKET_MASK = 2 ^ 11" by (simp add: VT_IN_HOME_BUCKET_MASK_def)
  show ?thesis unfolding \<open>VT_IN_HOME_BUCKET_MASK = 2 ^ 11\<close> bit_exp_iff by auto
qed

lemma bit_FRAG: "bit VT_HASH_FRAG_MASK n \<longleftrightarrow> 12 \<le> n \<and> n < 16"
proof -
  have "VT_HASH_FRAG_MASK = NOT (mask 12)" by (simp add: VT_HASH_FRAG_MASK_def mask_eq_exp_minus_1)
  show ?thesis unfolding \<open>VT_HASH_FRAG_MASK = NOT (mask 12)\<close> by (auto simp: bit_not_iff bit_mask_iff)
qed

lemmas bit_masks = bit_DISP bit_HOME bit_FRAG

lemma w16_eqI: "(\<And>n. n < 16 \<Longrightarrow> bit (a::16 word) n = bit b n) \<Longrightarrow> a = b"
  by (rule bit_word_eqI) simp

text \<open>A metadatum is determined by its three fields.\<close>

lemma in_home_bit: "in_home w \<longleftrightarrow> bit w 11"
proof
  assume "in_home w"
  then have "w AND VT_IN_HOME_BUCKET_MASK \<noteq> 0" by (simp add: in_home_def)
  then have "\<exists>n. bit (w AND VT_IN_HOME_BUCKET_MASK) n"
    by (auto simp add: bit_eq_iff)
  then show "bit w 11" by (auto simp: bit_and_iff bit_HOME)
next
  assume "bit w 11"
  then have "bit (w AND VT_IN_HOME_BUCKET_MASK) 11" by (simp add: bit_and_iff bit_HOME)
  then have "w AND VT_IN_HOME_BUCKET_MASK \<noteq> 0" by auto
  then show "in_home w" by (simp add: in_home_def)
qed

lemma frag_of_bit: "bit (frag_of w) n \<longleftrightarrow> bit w n \<and> 12 \<le> n \<and> n < 16"
  by (auto simp: frag_of_def bit_and_iff bit_masks)

lemma disp_word_bit: "bit (w AND VT_DISPLACEMENT_MASK) n \<longleftrightarrow> bit w n \<and> n < 11"
  by (auto simp: bit_and_iff bit_masks)

lemma displacement_of_eq_iff:
  "displacement_of w = displacement_of w' \<longleftrightarrow> w AND VT_DISPLACEMENT_MASK = w' AND VT_DISPLACEMENT_MASK"
  by (simp add: displacement_of_def word_unat_eq_iff)

lemma meta_eqI:
  assumes "frag_of w = frag_of w'" "in_home w = in_home w'" "displacement_of w = displacement_of w'"
  shows "w = w'"
proof (rule w16_eqI)
  fix n :: nat assume "n < 16"
  have d: "bit (w AND VT_DISPLACEMENT_MASK) n = bit (w' AND VT_DISPLACEMENT_MASK) n"
    using assms(3) by (simp add: displacement_of_eq_iff)
  have f: "bit (frag_of w) n = bit (frag_of w') n" using assms(1) by simp
  consider "n < 11" | "n = 11" | "12 \<le> n" by linarith
  then show "bit w n = bit w' n"
  proof cases
    case 1 then show ?thesis using d by (simp add: disp_word_bit)
  next
    case 2 then show ?thesis using assms(2) by (simp add: in_home_bit)
  next
    case 3 then show ?thesis using f \<open>n < 16\<close> by (simp add: frag_of_bit)
  qed
qed

lemma displacement_of_le: "displacement_of w \<le> 2047"
proof -
  have "w AND VT_DISPLACEMENT_MASK \<le> VT_DISPLACEMENT_MASK" by (rule word_and_le1)
  then have "unat (w AND VT_DISPLACEMENT_MASK) \<le> unat VT_DISPLACEMENT_MASK"
    by (simp add: word_le_nat_alt)
  then show ?thesis by (simp add: displacement_of_def VT_DISPLACEMENT_MASK_def)
qed

lemma disp_word_fits:
  assumes "unat (d::16 word) \<le> 2047"
  shows "d AND VT_DISPLACEMENT_MASK = d"
proof -
  have "d < 2 ^ 11" using assms by (simp add: word_less_nat_alt)
  then have "d AND mask 11 = d" by (rule less_mask_eq)
  moreover have "VT_DISPLACEMENT_MASK = mask 11" by (simp add: VT_DISPLACEMENT_MASK_def mask_eq_exp_minus_1)
  ultimately show ?thesis by simp
qed

lemma empty_iff: "w = VT_EMPTY \<longleftrightarrow> frag_of w = 0 \<and> \<not> in_home w \<and> displacement_of w = 0"
proof
  assume "w = VT_EMPTY" then show "frag_of w = 0 \<and> \<not> in_home w \<and> displacement_of w = 0"
    by (simp add: VT_EMPTY_def frag_of_def in_home_def displacement_of_def)
next
  assume a: "frag_of w = 0 \<and> \<not> in_home w \<and> displacement_of w = 0"
  have "w = 0"
    by (rule meta_eqI) (use a in \<open>simp_all add: frag_of_def in_home_def displacement_of_def\<close>)
  then show "w = VT_EMPTY" by (simp add: VT_EMPTY_def)
qed


lemma frag_fixed_bit: "frag_of x = x \<Longrightarrow> bit x n \<Longrightarrow> 12 \<le> n \<and> n < 16"
  by (metis frag_of_bit)

lemma frag_of_idem [simp]: "frag_of (frag_of w) = frag_of w"
  by (rule w16_eqI) (auto simp: frag_of_bit)

lemma frag_of_VT_HASH_FRAG [simp]: "frag_of (VT_HASH_FRAG h) = VT_HASH_FRAG h"
  by (rule w16_eqI) (auto simp: frag_of_bit VT_HASH_FRAG_def bit_and_iff bit_masks)

lemma displacement_of_bits:
  "(\<And>n. n < 11 \<Longrightarrow> bit w n = bit w' n) \<Longrightarrow> displacement_of w = displacement_of w'"
  unfolding displacement_of_eq_iff by (rule w16_eqI) (auto simp: disp_word_bit)

lemma displacement_of_word: "unat (d::16 word) \<le> 2047 \<Longrightarrow> displacement_of d = unat d"
  by (simp add: displacement_of_def disp_word_fits)

lemma displacement_of_MASK [simp]: "displacement_of VT_DISPLACEMENT_MASK = 2047"
  by (simp add: displacement_of_def VT_DISPLACEMENT_MASK_def)

text \<open>The metadata words the program writes, field by field.\<close>

lemma new_chain_meta:
  assumes "frag_of x = x"
  shows "frag_of (x OR VT_IN_HOME_BUCKET_MASK OR VT_DISPLACEMENT_MASK) = x"
    and "in_home (x OR VT_IN_HOME_BUCKET_MASK OR VT_DISPLACEMENT_MASK)"
    and "displacement_of (x OR VT_IN_HOME_BUCKET_MASK OR VT_DISPLACEMENT_MASK) = 2047"
proof -
  show "frag_of (x OR VT_IN_HOME_BUCKET_MASK OR VT_DISPLACEMENT_MASK) = x"
    by (rule w16_eqI) (auto simp: frag_of_bit bit_or_iff bit_masks dest: frag_fixed_bit [OF assms])
  show "in_home (x OR VT_IN_HOME_BUCKET_MASK OR VT_DISPLACEMENT_MASK)"
    by (simp add: in_home_bit bit_or_iff bit_masks)
  have "displacement_of (x OR VT_IN_HOME_BUCKET_MASK OR VT_DISPLACEMENT_MASK)
      = displacement_of VT_DISPLACEMENT_MASK"
    by (rule displacement_of_bits) (auto simp: bit_or_iff bit_masks dest: frag_fixed_bit [OF assms])
  then show "displacement_of (x OR VT_IN_HOME_BUCKET_MASK OR VT_DISPLACEMENT_MASK) = 2047"
    by simp
qed

lemma relink_meta:
  assumes "unat (d::16 word) \<le> 2047"
  shows "frag_of ((w AND NOT VT_DISPLACEMENT_MASK) OR d) = frag_of w"
    and "in_home ((w AND NOT VT_DISPLACEMENT_MASK) OR d) = in_home w"
    and "displacement_of ((w AND NOT VT_DISPLACEMENT_MASK) OR d) = unat d"
proof -
  have dfit: "d AND VT_DISPLACEMENT_MASK = d" using assms by (rule disp_word_fits)
  have dbit: "\<And>n. bit d n \<Longrightarrow> n < 11"
    by (metis dfit disp_word_bit)
  show "frag_of ((w AND NOT VT_DISPLACEMENT_MASK) OR d) = frag_of w"
    by (rule w16_eqI) (auto simp: frag_of_bit bit_or_iff bit_and_iff bit_not_iff bit_masks dest: dbit)
  show "in_home ((w AND NOT VT_DISPLACEMENT_MASK) OR d) = in_home w"
    using dbit [of 11] by (auto simp: in_home_bit bit_or_iff bit_and_iff bit_not_iff bit_masks)
  have "displacement_of ((w AND NOT VT_DISPLACEMENT_MASK) OR d) = displacement_of d"
    by (rule displacement_of_bits) (auto simp: bit_or_iff bit_and_iff bit_not_iff bit_masks)
  then show "displacement_of ((w AND NOT VT_DISPLACEMENT_MASK) OR d) = unat d"
    using assms by (simp add: displacement_of_word)
qed

lemma linked_meta:
  assumes "frag_of x = x"
  shows "frag_of (x OR (w AND VT_DISPLACEMENT_MASK)) = x"
    and "\<not> in_home (x OR (w AND VT_DISPLACEMENT_MASK))"
    and "displacement_of (x OR (w AND VT_DISPLACEMENT_MASK)) = displacement_of w"
proof -
  show "frag_of (x OR (w AND VT_DISPLACEMENT_MASK)) = x"
    by (rule w16_eqI) (auto simp: frag_of_bit bit_or_iff bit_and_iff bit_masks dest: frag_fixed_bit [OF assms])
  show "\<not> in_home (x OR (w AND VT_DISPLACEMENT_MASK))"
    using frag_fixed_bit [OF assms, of 11] by (auto simp: in_home_bit bit_or_iff bit_and_iff bit_masks)
  show "displacement_of (x OR (w AND VT_DISPLACEMENT_MASK)) = displacement_of w"
    by (rule displacement_of_bits) (auto simp: bit_or_iff bit_and_iff bit_masks dest: frag_fixed_bit [OF assms])
qed

lemma end_link_meta:
  shows "frag_of (w OR VT_DISPLACEMENT_MASK) = frag_of w"
    and "in_home (w OR VT_DISPLACEMENT_MASK) = in_home w"
    and "displacement_of (w OR VT_DISPLACEMENT_MASK) = 2047"
proof -
  show "frag_of (w OR VT_DISPLACEMENT_MASK) = frag_of w"
    by (rule w16_eqI) (auto simp: frag_of_bit bit_or_iff bit_masks)
  show "in_home (w OR VT_DISPLACEMENT_MASK) = in_home w"
    by (auto simp: in_home_bit bit_or_iff bit_masks)
  have "displacement_of (w OR VT_DISPLACEMENT_MASK) = displacement_of VT_DISPLACEMENT_MASK"
    by (rule displacement_of_bits) (auto simp: bit_or_iff bit_masks)
  then show "displacement_of (w OR VT_DISPLACEMENT_MASK) = 2047" by simp
qed

lemma refrag_meta:
  shows "frag_of ((w AND NOT VT_HASH_FRAG_MASK) OR (w' AND VT_HASH_FRAG_MASK)) = frag_of w'"
    and "in_home ((w AND NOT VT_HASH_FRAG_MASK) OR (w' AND VT_HASH_FRAG_MASK)) = in_home w"
    and "displacement_of ((w AND NOT VT_HASH_FRAG_MASK) OR (w' AND VT_HASH_FRAG_MASK))
          = displacement_of w"
proof -
  show "frag_of ((w AND NOT VT_HASH_FRAG_MASK) OR (w' AND VT_HASH_FRAG_MASK)) = frag_of w'"
    by (rule w16_eqI) (auto simp: frag_of_bit bit_or_iff bit_and_iff bit_not_iff bit_masks)
  show "in_home ((w AND NOT VT_HASH_FRAG_MASK) OR (w' AND VT_HASH_FRAG_MASK)) = in_home w"
    by (auto simp: in_home_bit bit_or_iff bit_and_iff bit_not_iff bit_masks)
  show "displacement_of ((w AND NOT VT_HASH_FRAG_MASK) OR (w' AND VT_HASH_FRAG_MASK))
          = displacement_of w"
    by (rule displacement_of_bits) (auto simp: bit_or_iff bit_and_iff bit_not_iff bit_masks)
qed

text \<open>The tests the program makes on a metadatum, in terms of the fields.\<close>

lemma in_home_test: "(w AND VT_IN_HOME_BUCKET_MASK = 0) = (\<not> in_home w)"
  by (simp add: in_home_def)

lemma end_link_test:
  "(w AND VT_DISPLACEMENT_MASK = VT_DISPLACEMENT_MASK) = (displacement_of w = 2047)"
proof -
  have "(w AND VT_DISPLACEMENT_MASK = VT_DISPLACEMENT_MASK AND VT_DISPLACEMENT_MASK)
      = (displacement_of w = displacement_of VT_DISPLACEMENT_MASK)"
    by (simp only: displacement_of_eq_iff)
  then show ?thesis by simp
qed

lemma unat_disp_word: "unat (w AND VT_DISPLACEMENT_MASK) = displacement_of w"
  by (simp add: displacement_of_def)


declare find_first_empty_loop.simps [simp del]
declare rehash_reinsert.simps [simp del]
declare fast_forward_loop.simps [simp del]
declare clear_loop.simps [simp del]

subsection \<open>Reading and writing the arrays\<close>

lemma md_set_md:
  "i < length (words (metadata t)) \<Longrightarrow> md (set_md t i w) j = (if j = i then w else md t j)"
  by (simp add: md_def set_md_def)

lemma md_set_bkt [simp]: "md (set_bkt t i b) j = md t j"
  by (simp add: md_def set_bkt_def)

lemma bkt_set_bkt:
  "i < length (entries (buckets t)) \<Longrightarrow> bkt (set_bkt t i b) j = (if j = i then b else bkt t j)"
  by (simp add: bkt_def set_bkt_def)

lemma bkt_set_md [simp]: "bkt (set_md t i w) j = bkt t j"
  by (simp add: bkt_def set_md_def)

lemma bucket_count_set [simp]:
  "bucket_count (set_md t i w) = bucket_count t"
  "bucket_count (set_bkt t i b) = bucket_count t"
  by (simp_all add: set_md_def set_bkt_def)

lemma key_count_set [simp]:
  "key_count (set_md t i w) = key_count t"
  "key_count (set_bkt t i b) = key_count t"
  by (simp_all add: set_md_def set_bkt_def)

lemma md_key_count_update [simp]: "md (t\<lparr>key_count := n\<rparr>) j = md t j"
  by (simp add: md_def)

lemma bkt_key_count_update [simp]: "bkt (t\<lparr>key_count := n\<rparr>) j = bkt t j"
  by (simp add: bkt_def)

lemma length_words_set [simp]:
  "length (words (metadata (set_md t i w))) = length (words (metadata t))"
  "length (words (metadata (set_bkt t i b))) = length (words (metadata t))"
  "length (words (metadata (t\<lparr>key_count := n\<rparr>))) = length (words (metadata t))"
  by (simp_all add: set_md_def set_bkt_def)

lemma length_entries_set [simp]:
  "length (entries (buckets (set_md t i w))) = length (entries (buckets t))"
  "length (entries (buckets (set_bkt t i b))) = length (entries (buckets t))"
  "length (entries (buckets (t\<lparr>key_count := n\<rparr>))) = length (entries (buckets t))"
  by (simp_all add: set_md_def set_bkt_def)

subsection \<open>One step of each loop\<close>

lemma find_first_empty_loop_found:
  "md t ((home + l) AND (bucket_count t - 1)) = VT_EMPTY \<Longrightarrow>
   find_first_empty_loop t home d l = Some ((home + l) AND (bucket_count t - 1), d)"
  by (subst find_first_empty_loop.simps) simp

lemma find_first_empty_loop_limit:
  "md t ((home + l) AND (bucket_count t - 1)) \<noteq> VT_EMPTY \<Longrightarrow> d + 1 = VT_DISPLACEMENT_MASK \<Longrightarrow>
   find_first_empty_loop t home d l = None"
  by (subst find_first_empty_loop.simps) simp

lemma find_first_empty_loop_step:
  "md t ((home + l) AND (bucket_count t - 1)) \<noteq> VT_EMPTY \<Longrightarrow> d + 1 \<noteq> VT_DISPLACEMENT_MASK \<Longrightarrow>
   find_first_empty_loop t home d l = find_first_empty_loop t home (d + 1) (l + unat (d + 1))"
  by (subst find_first_empty_loop.simps) simp

lemma find_insert_location_loop_found:
  "displacement_to_empty < displacement_of (md t candidate) \<Longrightarrow>
   find_insert_location_loop t home displacement_to_empty candidate = Some candidate"
  by (subst find_insert_location_loop.simps) simp

lemma find_insert_location_loop_step:
  "\<not> displacement_to_empty < displacement_of (md t candidate) \<Longrightarrow>
   find_insert_location_loop t home displacement_to_empty candidate
     = find_insert_location_loop t home displacement_to_empty
         (probe t home (displacement_of (md t candidate)))"
  by (subst find_insert_location_loop.simps) simp

lemma find_prev_found:
  "probe t home (displacement_of (md t prev)) = bucket \<Longrightarrow> find_prev t home bucket prev = Some prev"
  by (subst find_prev.simps) simp

lemma find_prev_step:
  "probe t home (displacement_of (md t prev)) \<noteq> bucket \<Longrightarrow>
   find_prev t home bucket prev
     = find_prev t home bucket (probe t home (displacement_of (md t prev)))"
  by (subst find_prev.simps) simp

lemma chain_lookup_found:
  "frag_of (md t bucket) = hashfrag \<Longrightarrow> CMPR_FN c (key (bkt t bucket)) k \<Longrightarrow>
   chain_lookup c t home hashfrag k bucket = Some (Some bucket)"
  by (subst chain_lookup.simps) (simp add: frag_of_def)

lemma chain_lookup_end:
  "\<not> (frag_of (md t bucket) = hashfrag \<and> CMPR_FN c (key (bkt t bucket)) k) \<Longrightarrow>
   displacement_of (md t bucket) = 2047 \<Longrightarrow>
   chain_lookup c t home hashfrag k bucket = Some None"
  by (subst chain_lookup.simps) (auto simp: frag_of_def end_link_test)

lemma chain_lookup_step:
  "\<not> (frag_of (md t bucket) = hashfrag \<and> CMPR_FN c (key (bkt t bucket)) k) \<Longrightarrow>
   displacement_of (md t bucket) \<noteq> 2047 \<Longrightarrow>
   chain_lookup c t home hashfrag k bucket
     = chain_lookup c t home hashfrag k (probe t home (displacement_of (md t bucket)))"
  by (subst chain_lookup.simps) (auto simp: frag_of_def end_link_test unat_disp_word)

lemma find_last_found:
  "displacement_of (md t (probe t home (displacement_of (md t bucket)))) = 2047 \<Longrightarrow>
   find_last t home bucket = Some (bucket, probe t home (displacement_of (md t bucket)))"
  by (subst find_last.simps) (simp add: end_link_test)

lemma find_last_step:
  "displacement_of (md t (probe t home (displacement_of (md t bucket)))) \<noteq> 2047 \<Longrightarrow>
   find_last t home bucket = find_last t home (probe t home (displacement_of (md t bucket)))"
  by (subst find_last.simps) (simp add: end_link_test)

lemma rehash_reinsert_done:
  "\<not> bucket < bucket_count t \<Longrightarrow> rehash_reinsert c t new_table bucket = Some (Inr new_table)"
  by (subst rehash_reinsert.simps) simp

lemma rehash_reinsert_skip:
  "bucket < bucket_count t \<Longrightarrow> md t bucket = VT_EMPTY \<Longrightarrow>
   rehash_reinsert c t new_table bucket = rehash_reinsert c t new_table (bucket + 1)"
  by (subst rehash_reinsert.simps) simp

lemma rehash_reinsert_freed:
  "bucket < bucket_count t \<Longrightarrow> md t bucket \<noteq> VT_EMPTY \<Longrightarrow> metadata new_table = FreedMeta \<Longrightarrow>
   rehash_reinsert c t new_table bucket = Some (Inl UseAfterFree)"
  by (subst rehash_reinsert.simps) simp

lemma rehash_reinsert_ok:
  "bucket < bucket_count t \<Longrightarrow> md t bucket \<noteq> VT_EMPTY \<Longrightarrow> metadata new_table \<noteq> FreedMeta \<Longrightarrow>
   insert_raw c new_table (key (bkt t bucket)) (val (bkt t bucket)) True False = Some (it, new_table') \<Longrightarrow>
   \<not> vt_is_end it \<Longrightarrow>
   rehash_reinsert c t new_table bucket = rehash_reinsert c t new_table' (bucket + 1)"
  by (subst rehash_reinsert.simps) simp

lemma rehash_reinsert_failed:
  "bucket < bucket_count t \<Longrightarrow> md t bucket \<noteq> VT_EMPTY \<Longrightarrow> metadata new_table \<noteq> FreedMeta \<Longrightarrow>
   insert_raw c new_table (key (bkt t bucket)) (val (bkt t bucket)) True False = Some (it, new_table') \<Longrightarrow>
   vt_is_end it \<Longrightarrow>
   rehash_reinsert c t new_table bucket
     = rehash_reinsert c t (new_table'\<lparr>metadata := FreedMeta, buckets := FreedBuckets\<rparr>) (bucket + 1)"
  by (subst rehash_reinsert.simps) simp

lemma rehash_reinsert_diverges:
  "bucket < bucket_count t \<Longrightarrow> md t bucket \<noteq> VT_EMPTY \<Longrightarrow> metadata new_table \<noteq> FreedMeta \<Longrightarrow>
   insert_raw c new_table (key (bkt t bucket)) (val (bkt t bucket)) True False = None \<Longrightarrow>
   rehash_reinsert c t new_table bucket = None"
  by (subst rehash_reinsert.simps) simp

lemma insert_loop_done:
  "insert_raw c t k v False replace = Some (it, t1) \<Longrightarrow> \<not> vt_is_end it \<Longrightarrow>
   insert_loop c replace a t k v = Some (Inr (it, t1, a))"
  by (subst insert_loop.simps) simp

lemma insert_loop_alloc_failed:
  "insert_raw c t k v False replace = Some (it, t1) \<Longrightarrow> vt_is_end it \<Longrightarrow>
   rehash c a t1 (grown_bucket_count t1) = Some (Inr (False, t2, a2)) \<Longrightarrow>
   insert_loop c replace a t k v = Some (Inr (it, t2, a2))"
  by (subst insert_loop.simps) simp

lemma insert_loop_fault:
  "insert_raw c t k v False replace = Some (it, t1) \<Longrightarrow> vt_is_end it \<Longrightarrow>
   rehash c a t1 (grown_bucket_count t1) = Some (Inl f) \<Longrightarrow>
   insert_loop c replace a t k v = Some (Inl f)"
  by (subst insert_loop.simps) simp

lemma insert_loop_retry:
  "insert_raw c t k v False replace = Some (it, t1) \<Longrightarrow> vt_is_end it \<Longrightarrow>
   rehash c a t1 (grown_bucket_count t1) = Some (Inr (True, t2, a2)) \<Longrightarrow>
   metadata t2 \<noteq> FreedMeta \<Longrightarrow>
   insert_loop c replace a t k v = insert_loop c replace a2 t2 k v"
  by (subst insert_loop.simps) simp

lemma insert_loop_freed:
  "insert_raw c t k v False replace = Some (it, t1) \<Longrightarrow> vt_is_end it \<Longrightarrow>
   rehash c a t1 (grown_bucket_count t1) = Some (Inr (True, t2, a2)) \<Longrightarrow>
   metadata t2 = FreedMeta \<Longrightarrow>
   insert_loop c replace a t k v = Some (Inl UseAfterFree)"
  by (subst insert_loop.simps) simp

lemma min_bucket_count_loop_done:
  "\<not> of_nat n > of_nat b * MAX_LOAD c \<Longrightarrow> min_bucket_count_loop c n b = Some b"
  by (subst min_bucket_count_loop.simps) simp

lemma min_bucket_count_loop_step:
  "of_nat n > of_nat b * MAX_LOAD c \<Longrightarrow>
   min_bucket_count_loop c n b = min_bucket_count_loop c n (b * 2)"
  by (subst min_bucket_count_loop.simps) simp

lemma fast_forward_loop_stop:
  "i + 4 \<le> length ws \<Longrightarrow> list_ex (\<lambda>w. w \<noteq> 0) (take 4 (drop i ws)) \<Longrightarrow>
   fast_forward_loop ws i = Some (i + vt_first_nonzero_uint16 (take 4 (drop i ws)))"
  by (subst fast_forward_loop.simps) simp

lemma fast_forward_loop_step:
  "i + 4 \<le> length ws \<Longrightarrow> \<not> list_ex (\<lambda>w. w \<noteq> 0) (take 4 (drop i ws)) \<Longrightarrow>
   fast_forward_loop ws i = fast_forward_loop ws (i + 4)"
  by (subst fast_forward_loop.simps) simp

lemma fast_forward_loop_out:
  "length ws < i + 4 \<Longrightarrow> fast_forward_loop ws i = None"
  by (subst fast_forward_loop.simps) simp

subsection \<open>Concrete configurations and tables\<close>

text \<open>
  Two instantiations over \<^verbatim>\<open>uint64_t\<close> keys with the default load factor: the default
  hash function, and the identity as a user-supplied \<^verbatim>\<open>HASH_FN\<close>.
\<close>

definition int_config :: "(64 word) config" where
  "int_config = \<lparr>HASH_FN = vt_hash_integer, CMPR_FN = vt_cmpr_integer, MAX_LOAD = 9 / 10\<rparr>"

definition id_config :: "(64 word) config" where
  "id_config = \<lparr>HASH_FN = (\<lambda>k. k), CMPR_FN = vt_cmpr_integer, MAX_LOAD = 9 / 10\<rparr>"

definition always :: allocator where
  "always = \<lparr>outcomes = (\<lambda>n. True), used = 0\<rparr>"

definition never :: allocator where
  "never = \<lparr>outcomes = (\<lambda>n. False), used = 0\<rparr>"

text \<open>The table after \<^verbatim>\<open>insert( 3, 100 )\<close> into an initialised table, and after erasing 3.\<close>

definition one_key_table :: "(64 word, nat) table" where
  "one_key_table =
     \<lparr>key_count = 1, bucket_count = 8,
      metadata = Meta [0, 0, 0, 0x0FFF, 0, 0, 0, 0, 0xFFFF, 0xFFFF, 0xFFFF, 0xFFFF],
      buckets = Buckets [undefined, undefined, undefined, \<lparr>key = 3, val = 100\<rparr>,
        undefined, undefined, undefined, undefined]\<rparr>"

definition erased_table :: "(64 word, nat) table" where
  "erased_table =
     \<lparr>key_count = 0, bucket_count = 8,
      metadata = Meta [0, 0, 0, 0, 0, 0, 0, 0, 0xFFFF, 0xFFFF, 0xFFFF, 0xFFFF],
      buckets = Buckets [undefined, undefined, undefined, \<lparr>key = 3, val = 100\<rparr>,
        undefined, undefined, undefined, undefined]\<rparr>"

lemma list_update_numeral:
  "(x # xs)[numeral k := y] = x # xs[pred_numeral k := y]"
  by (simp add: numeral_eq_Suc)

lemma list_update_one: "(x # xs)[1 := y] = x # xs[0 := y]"
  by simp

lemma replicate_numeral: "replicate (numeral k) x = x # replicate (pred_numeral k) x"
  by (simp add: numeral_eq_Suc)

lemma and_7: "(x::nat) AND 7 = x mod 8"
  using and_mask_mod [of x 3] by simp

lemma and_15: "(x::nat) AND 15 = x mod 16"
  using and_mask_mod [of x 4] by simp

lemmas eval_list = list_update_numeral list_update_one replicate_numeral and_7 and_15

lemmas eval_defs = 
  insert_raw_def vt_init_def end_itr_def vt_is_end_def itr_at_def
  grown_bucket_count_def VT_MIN_NONZERO_BUCKET_COUNT_def MALLOC_FN_def fresh_table_def
  load_exceeded_def md_def bkt_def set_md_def set_bkt_def VT_HASH_FRAG_def VT_HASH_FRAG_MASK_def
  VT_IN_HOME_BUCKET_MASK_def VT_DISPLACEMENT_MASK_def VT_EMPTY_def Let_def
  find_first_empty_def find_insert_location_in_chain_def
  probe_def VT_QUADRATIC_def displacement_of_def evict_def home_of_def frag_of_def
  SIZE_MAX_def vt_cmpr_integer_def

lemma insert_into_init:
  "vt_insert id_config always vt_init 3 100
     = Some (Inr (itr_at one_key_table 3 3, one_key_table, always\<lparr>used := 2\<rparr>))"
proof -
  have 1: "insert_raw id_config vt_init (3::64 word) (100::nat) False True
      = Some (end_itr (vt_init :: (64 word, nat) table), vt_init)"
    by (simp add: insert_raw_def vt_init_def end_itr_def)
  have 2: "rehash id_config always (vt_init :: (64 word, nat) table)
        (grown_bucket_count (vt_init :: (64 word, nat) table))
      = Some (Inr (True, fresh_table 8, always\<lparr>used := 2\<rparr>))"
    by (simp add: rehash_def MALLOC_FN_def always_def rehash_reinsert_done vt_init_def
        grown_bucket_count_def VT_MIN_NONZERO_BUCKET_COUNT_def)
  have 3: "insert_raw id_config (fresh_table 8) (3::64 word) (100::nat) False True
      = Some (itr_at one_key_table 3 3, one_key_table)"
    by (simp add: eval_defs eval_list id_config_def one_key_table_def)
  have 4: "\<not> vt_is_end (itr_at one_key_table 3 3)"
    by (simp add: vt_is_end_def itr_at_def one_key_table_def)
  have 5: "vt_is_end (end_itr (vt_init :: (64 word, nat) table))"
    by (simp add: vt_is_end_def end_itr_def)
  have 6: "metadata (fresh_table 8 :: (64 word, nat) table) \<noteq> FreedMeta"
    by (simp add: fresh_table_def)
  show ?thesis
    unfolding vt_insert_def
    by (simp add: insert_loop_retry [OF 1 5 2 6] insert_loop_done [OF 3 4])
qed

lemma erase_the_key: "vt_erase id_config one_key_table 3 = Some (True, erased_table)"
proof -
  have "chain_lookup id_config one_key_table 3 0 3 3 = Some (Some 3)"
    by (rule chain_lookup_found)
      (simp_all add: one_key_table_def id_config_def eval_defs eval_list)
  then have "vt_get id_config one_key_table 3 = Some (itr_at one_key_table 3 3)"
    by (simp add: vt_get_def one_key_table_def id_config_def eval_defs eval_list)
  moreover have "erase_itr_raw id_config one_key_table (itr_at one_key_table 3 3)
      = Some (True, erased_table)"
    by (simp add: erase_itr_raw_def one_key_table_def erased_table_def eval_defs eval_list)
  ultimately show ?thesis
    by (simp add: vt_erase_def vt_is_end_def itr_at_def one_key_table_def)
qed

subsection \<open>Claim C2: the zero-bucket state\<close>

text \<open>
  Claim C2: between public operations the bucket count is 0 or a power of two that is at
  least 8, and at bucket count 0 the metadata handle is the placeholder and the bucket
  handle is null. \<^verbatim>\<open>NAME_init\<close>, \<^verbatim>\<open>NAME_init_clone\<close> and \<^verbatim>\<open>NAME_cleanup\<close> set the bucket
  handle to null; \<^verbatim>\<open>NAME_shrink\<close> does not. The theorem runs the public functions:
  insert key 3 into an initialised table, erase it, shrink. The shrink succeeds, the
  bucket count is 0, the metadata handle is the placeholder, and the bucket handle is
  the pointer to the array that was just freed, not null.
\<close>

theorem shrink_to_zero_keeps_bucket_handle:
  "vt_insert id_config always vt_init 3 100
     = Some (Inr (itr_at one_key_table 3 3, one_key_table, always\<lparr>used := 2\<rparr>))
   \<and> vt_erase id_config one_key_table 3 = Some (True, erased_table)
   \<and> vt_shrink id_config always erased_table
     = Some (Inr (True,
         erased_table\<lparr>bucket_count := 0, metadata := Placeholder, buckets := FreedBuckets\<rparr>,
         always))
   \<and> buckets (erased_table\<lparr>bucket_count := 0, metadata := Placeholder,
         buckets := FreedBuckets\<rparr>) \<noteq> NullBuckets"
proof -
  have "vt_shrink id_config always erased_table
     = Some (Inr (True,
         erased_table\<lparr>bucket_count := 0, metadata := Placeholder, buckets := FreedBuckets\<rparr>,
         always))"
    by (simp add: vt_shrink_def min_bucket_count_for_size_def erased_table_def)
  then show ?thesis
    using insert_into_init erase_the_key by simp
qed

subsection \<open>Bucket counts\<close>

lemma evict_bucket_count:
  "evict c t b = Some (r, t') \<Longrightarrow> bucket_count t' = bucket_count t"
  by (auto simp: evict_def Let_def split: option.splits prod.splits)

lemma insert_raw_bucket_count:
  "insert_raw c t k v unique replace = Some (it, t') \<Longrightarrow> bucket_count t' = bucket_count t"
  by (auto simp: insert_raw_def Let_def split: option.splits prod.splits if_splits
      dest: evict_bucket_count)

lemma rehash_reinsert_bucket_count:
  "rehash_reinsert c t new_table bucket = Some (Inr new_table') \<Longrightarrow>
   bucket_count new_table' = bucket_count new_table"
proof (induction c t new_table bucket rule: rehash_reinsert.induct)
  case (1 c t new_table bucket)
  show ?case
  proof (cases "bucket < bucket_count t")
    case False
    with "1.prems" show ?thesis by (simp add: rehash_reinsert_done)
  next
    case in_range: True
    show ?thesis
    proof (cases "md t bucket = VT_EMPTY")
      case True
      with in_range "1.prems" "1.IH"(3) show ?thesis by (simp add: rehash_reinsert_skip)
    next
      case occupied: False
      show ?thesis
      proof (cases "metadata new_table = FreedMeta")
        case True
        with in_range occupied "1.prems" show ?thesis by (simp add: rehash_reinsert_freed)
      next
        case live: False
        show ?thesis
        proof (cases "insert_raw c new_table (key (bkt t bucket)) (val (bkt t bucket)) True False")
          case None
          with in_range occupied live "1.prems" show ?thesis
            by (simp add: rehash_reinsert_diverges)
        next
          case (Some r)
          obtain it nt where r: "r = (it, nt)" by (cases r)
          have bc: "bucket_count nt = bucket_count new_table"
            using Some r by (auto dest: insert_raw_bucket_count)
          show ?thesis
          proof (cases "vt_is_end it")
            case True
            have "rehash_reinsert c t (nt\<lparr>metadata := FreedMeta, buckets := FreedBuckets\<rparr>)
                (bucket + 1) = Some (Inr new_table')"
              using rehash_reinsert_failed [OF in_range occupied live Some [unfolded r] True]
                "1.prems" by simp
            from "1.IH"(1) [OF in_range occupied live Some [unfolded r] refl True this]
            show ?thesis using bc by simp
          next
            case False
            have "rehash_reinsert c t nt (bucket + 1) = Some (Inr new_table')"
              using rehash_reinsert_ok [OF in_range occupied live Some [unfolded r] False]
                "1.prems" by simp
            from "1.IH"(2) [OF in_range occupied live Some [unfolded r] refl False this]
            show ?thesis using bc by simp
          qed
        qed
      qed
    qed
  qed
qed

lemma rehash_bucket_count:
  "rehash c a t n = Some (Inr (True, t', a')) \<Longrightarrow> bucket_count t' = n"
  by (auto simp: rehash_def MALLOC_FN_def Let_def fresh_table_def
      split: option.splits sum.splits if_splits dest: rehash_reinsert_bucket_count)


lemma rehash_reinsert_skip_range:
  assumes "\<And>i. lo \<le> i \<Longrightarrow> i < hi \<Longrightarrow> md t i = VT_EMPTY" "hi \<le> bucket_count t" "lo \<le> hi"
  shows "rehash_reinsert c t new_table lo = rehash_reinsert c t new_table hi"
  using assms
proof (induction "hi - lo" arbitrary: lo)
  case 0
  then show ?case by simp
next
  case (Suc n)
  then have "lo < hi" by linarith
  then have "rehash_reinsert c t new_table lo = rehash_reinsert c t new_table (lo + 1)"
    using Suc.prems by (intro rehash_reinsert_skip) auto
  moreover have "rehash_reinsert c t new_table (lo + 1) = rehash_reinsert c t new_table hi"
    using Suc.hyps(2) Suc.prems \<open>lo < hi\<close> by (intro Suc.hyps(1)) auto
  ultimately show ?case by simp
qed

subsection \<open>Claim C3: the bucket count after a shrink\<close>

definition fits :: "'k config \<Rightarrow> nat \<Rightarrow> nat \<Rightarrow> bool" where
  "fits c n b = (of_nat n \<le> of_nat b * MAX_LOAD c)"

text \<open>
  The claim in the words of the specification: the smallest power of two \<open>b\<close> with
  \<open>n \<le> b \<sqdot> MAX_LOAD\<close>.
\<close>

definition smallest_power_of_two_fitting :: "'k config \<Rightarrow> nat \<Rightarrow> nat \<Rightarrow> bool" where
  "smallest_power_of_two_fitting c n b =
     ((\<exists>j. b = 2 ^ j) \<and> fits c n b \<and> (\<forall>j. fits c n (2 ^ j) \<longrightarrow> b \<le> 2 ^ j))"

text \<open>What the source computes: the smallest such power of two that is at least 8.\<close>

definition smallest_bucket_count_fitting :: "'k config \<Rightarrow> nat \<Rightarrow> nat \<Rightarrow> bool" where
  "smallest_bucket_count_fitting c n b =
     ((\<exists>j\<ge>3. b = 2 ^ j) \<and> fits c n b \<and> (\<forall>j\<ge>3. fits c n (2 ^ j) \<longrightarrow> b \<le> 2 ^ j))"

lemma fits_eventually:
  assumes "0 < MAX_LOAD c" "0 < b"
  shows "\<exists>J. fits c n (b * 2 ^ J)"
proof -
  obtain m :: nat where m: "of_nat n / MAX_LOAD c < of_nat m"
    using reals_Archimedean2 by blast
  have "m < 2 ^ m" by simp
  also have "\<dots> \<le> b * 2 ^ m" using \<open>0 < b\<close> by simp
  finally have "m \<le> b * 2 ^ m" by simp
  then have "(of_nat m :: rat) \<le> of_nat (b * 2 ^ m)" by (simp only: of_nat_le_iff)
  with m have "of_nat n / MAX_LOAD c \<le> of_nat (b * 2 ^ m)" by linarith
  then have "of_nat n \<le> of_nat (b * 2 ^ m) * MAX_LOAD c"
    using assms by (simp add: pos_divide_le_eq)
  then show ?thesis unfolding fits_def by blast
qed

lemma min_bucket_count_loop_result:
  "fits c n (b * 2 ^ J) \<Longrightarrow>
   \<exists>j\<le>J. min_bucket_count_loop c n b = Some (b * 2 ^ j) \<and> fits c n (b * 2 ^ j)
     \<and> (\<forall>i<j. \<not> fits c n (b * 2 ^ i))"
proof (induction J arbitrary: b)
  case 0
  then have "min_bucket_count_loop c n b = Some b"
    by (simp add: min_bucket_count_loop_done fits_def)
  with 0 show ?case by auto
next
  case (Suc J)
  show ?case
  proof (cases "fits c n b")
    case True
    then have "min_bucket_count_loop c n b = Some b"
      by (simp add: min_bucket_count_loop_done fits_def)
    with True have "min_bucket_count_loop c n b = Some (b * 2 ^ 0) \<and> fits c n (b * 2 ^ 0)
        \<and> (\<forall>i<0. \<not> fits c n (b * 2 ^ i))"
      by simp
    then show ?thesis by blast
  next
    case False
    then have step: "min_bucket_count_loop c n b = min_bucket_count_loop c n (b * 2)"
      by (simp add: min_bucket_count_loop_step fits_def)
    have "fits c n (b * 2 * 2 ^ J)" using Suc.prems by (simp add: mult.assoc)
    from Suc.IH [OF this] obtain j where j: "j \<le> J"
      "min_bucket_count_loop c n (b * 2) = Some (b * 2 * 2 ^ j)"
      "fits c n (b * 2 * 2 ^ j)" "\<forall>i<j. \<not> fits c n (b * 2 * 2 ^ i)"
      by blast
    have "\<forall>i<Suc j. \<not> fits c n (b * 2 ^ i)"
    proof (intro allI impI)
      fix i assume "i < Suc j"
      show "\<not> fits c n (b * 2 ^ i)"
      proof (cases i)
        case 0 with False show ?thesis by simp
      next
        case (Suc i')
        with \<open>i < Suc j\<close> j(4) have "\<not> fits c n (b * 2 * 2 ^ i')" by simp
        with Suc show ?thesis by (simp add: mult.assoc)
      qed
    qed
    moreover have "min_bucket_count_loop c n b = Some (b * 2 ^ Suc j)"
      using step j(2) by (simp add: mult.assoc)
    moreover have "fits c n (b * 2 ^ Suc j)" using j(3) by (simp add: mult.assoc)
    ultimately show ?thesis using j(1) by (intro exI [of _ "Suc j"]) simp
  qed
qed

lemma min_bucket_count_for_size_result:
  assumes "0 < MAX_LOAD c" "n \<noteq> 0"
  shows "\<exists>b. min_bucket_count_for_size c n = Some b \<and> smallest_bucket_count_fitting c n b"
proof -
  obtain J where "fits c n (8 * 2 ^ J)"
    using fits_eventually [OF assms(1), of 8 n] by auto
  from min_bucket_count_loop_result [OF this] obtain j where j:
    "min_bucket_count_loop c n 8 = Some (8 * 2 ^ j)" "fits c n (8 * 2 ^ j)"
    "\<forall>i<j. \<not> fits c n (8 * 2 ^ i)"
    by blast
  have eq: "(8::nat) * 2 ^ m = 2 ^ (m + 3)" for m by (simp add: power_add)
  have least: "(8::nat) * 2 ^ j \<le> 2 ^ i" if i: "3 \<le> i" "fits c n (2 ^ i)" for i
  proof -
    have "i = (i - 3) + 3" using i(1) by simp
    then have "(2::nat) ^ i = 8 * 2 ^ (i - 3)" using eq [of "i - 3"] by simp
    with i(2) have "fits c n (8 * 2 ^ (i - 3))" by simp
    with j(3) have "\<not> i - 3 < j" by blast
    then have "j + 3 \<le> i" using i(1) by linarith
    then have "(2::nat) ^ (j + 3) \<le> 2 ^ i" by (rule power_increasing) simp
    then show ?thesis by (simp only: eq)
  qed
  have "\<exists>i\<ge>3. (8::nat) * 2 ^ j = 2 ^ i"
    by (rule exI [of _ "j + 3"]) (simp add: eq)
  with least j(2) have "smallest_bucket_count_fitting c n (8 * 2 ^ j)"
    unfolding smallest_bucket_count_fitting_def by blast
  then show ?thesis
    using j(1) assms(2)
    by (simp add: min_bucket_count_for_size_def VT_MIN_NONZERO_BUCKET_COUNT_def)
qed

lemma all_less_numeral:
  "(\<forall>i<numeral k. P i) = (P (pred_numeral k) \<and> (\<forall>i<pred_numeral k. P i))"
  by (auto simp: numeral_eq_Suc less_Suc_eq)

lemma ex_less_numeral:
  "(\<exists>i<numeral k. P i) = (P (pred_numeral k) \<or> (\<exists>i<pred_numeral k. P i))"
  by (auto simp: numeral_eq_Suc less_Suc_eq)

lemma all_less_one: "(\<forall>i<(1::nat). P i) = P 0"
  by simp

lemmas eval_bounded = all_less_numeral ex_less_numeral all_less_one

text \<open>A table with 16 buckets that holds the key 3 (after \<^verbatim>\<open>reserve( 10 )\<close> and one insert).\<close>

definition one_key_table16 :: "(64 word, nat) table" where
  "one_key_table16 =
     \<lparr>key_count = 1, bucket_count = 16,
      metadata = Meta [0, 0, 0, 0x0FFF, 0, 0, 0, 0, 0, 0, 0, 0, 0, 0, 0, 0,
        0xFFFF, 0xFFFF, 0xFFFF, 0xFFFF],
      buckets = Buckets [undefined, undefined, undefined, \<lparr>key = 3, val = 100\<rparr>,
        undefined, undefined, undefined, undefined, undefined, undefined, undefined, undefined,
        undefined, undefined, undefined, undefined]\<rparr>"

lemma shrink_one_key_table16:
  "vt_shrink id_config always one_key_table16
     = Some (Inr (True, one_key_table, always\<lparr>used := 2\<rparr>))"
proof -
  have m: "min_bucket_count_for_size id_config (key_count one_key_table16) = Some 8"
    by (simp add: min_bucket_count_for_size_def VT_MIN_NONZERO_BUCKET_COUNT_def
        min_bucket_count_loop_done id_config_def one_key_table16_def)
  have "\<forall>i<16. md one_key_table16 i = (if i = 3 then 0x0FFF else 0)"
    by (simp add: eval_bounded md_def one_key_table16_def)
  then have md: "md one_key_table16 i = (if i = 3 then 0x0FFF else 0)" if "i < 16" for i
    using that by blast
  have bc: "bucket_count one_key_table16 = 16" by (simp add: one_key_table16_def)
  have before: "rehash_reinsert id_config one_key_table16 (fresh_table 8) 0
      = rehash_reinsert id_config one_key_table16 (fresh_table 8) 3"
    by (rule rehash_reinsert_skip_range) (simp_all add: bc md VT_EMPTY_def)
  have ins: "insert_raw id_config (fresh_table 8) (key (bkt one_key_table16 3))
      (val (bkt one_key_table16 3)) True False = Some (itr_at one_key_table 3 3, one_key_table)"
    by (simp add: eval_defs eval_list id_config_def one_key_table_def one_key_table16_def)
  have at: "rehash_reinsert id_config one_key_table16 (fresh_table 8) 3
      = rehash_reinsert id_config one_key_table16 one_key_table (3 + 1)"
    by (rule rehash_reinsert_ok [OF _ _ _ ins])
      (simp_all add: bc md VT_EMPTY_def fresh_table_def vt_is_end_def itr_at_def
        one_key_table_def)
  have after: "rehash_reinsert id_config one_key_table16 one_key_table 4
      = rehash_reinsert id_config one_key_table16 one_key_table 16"
    by (rule rehash_reinsert_skip_range) (simp_all add: bc md VT_EMPTY_def)
  have "rehash_reinsert id_config one_key_table16 one_key_table 16 = Some (Inr one_key_table)"
    by (simp add: rehash_reinsert_done bc)
  with before at after have "rehash_reinsert id_config one_key_table16 (fresh_table 8) 0
      = Some (Inr one_key_table)"
    by simp
  then have "rehash id_config always one_key_table16 8
      = Some (Inr (True, one_key_table, always\<lparr>used := 2\<rparr>))"
    by (simp add: rehash_def MALLOC_FN_def always_def)
  then show ?thesis
    using m by (simp add: vt_shrink_def bc)
qed

theorem shrink_not_smallest_power_of_two:
  "vt_shrink id_config always one_key_table16
     = Some (Inr (True, one_key_table, always\<lparr>used := 2\<rparr>))
   \<and> \<not> smallest_power_of_two_fitting id_config (vt_size one_key_table16)
         (vt_bucket_count one_key_table)"
proof -
  have "fits id_config 1 (2 ^ 1)" by (simp add: fits_def id_config_def)
  moreover have "\<not> (8::nat) \<le> 2 ^ 1" by simp
  ultimately have "\<not> smallest_power_of_two_fitting id_config 1 8"
    unfolding smallest_power_of_two_fitting_def by blast
  then show ?thesis
    using shrink_one_key_table16
    by (simp add: vt_size_def vt_bucket_count_def one_key_table16_def one_key_table_def)
qed

text \<open>
  Claim C3, amended: a successful \<^verbatim>\<open>NAME_shrink\<close> leaves the bucket count at 0 if the
  table holds no key, and otherwise at the smallest power of two \<open>b \<ge> 8\<close> with
  \<open>size \<le> b \<sqdot> MAX_LOAD\<close> (\<^verbatim>\<open>VT_MIN_NONZERO_BUCKET_COUNT\<close> is the least bucket count of a
  table that has buckets). The load factor is positive.
\<close>

theorem shrink_bucket_count:
  assumes "0 < MAX_LOAD c"
    and "vt_shrink c a t = Some (Inr (True, t', a'))"
  shows "if vt_size t = 0 then vt_bucket_count t' = 0
         else smallest_bucket_count_fitting c (vt_size t) (vt_bucket_count t')"
proof (cases "key_count t = 0")
  case True
  then have "min_bucket_count_for_size c (key_count t) = Some 0"
    by (simp add: min_bucket_count_for_size_def)
  with assms(2) have "bucket_count t' = 0"
    by (auto simp: vt_shrink_def split: if_splits)
  with True show ?thesis by (simp add: vt_size_def vt_bucket_count_def)
next
  case False
  from min_bucket_count_for_size_result [OF assms(1) False] obtain b where b:
    "min_bucket_count_for_size c (key_count t) = Some b"
    "smallest_bucket_count_fitting c (key_count t) b"
    by blast
  have "b \<noteq> 0" using b(2) by (auto simp: smallest_bucket_count_fitting_def)
  with assms(2) b(1) have "bucket_count t' = b"
    by (auto simp: vt_shrink_def split: if_splits dest: rehash_bucket_count)
  with False b(2) show ?thesis by (simp add: vt_size_def vt_bucket_count_def)
qed

theorem shrink_bucket_count_witness:
  "0 < MAX_LOAD id_config
   \<and> vt_shrink id_config always one_key_table16
       = Some (Inr (True, one_key_table, always\<lparr>used := 2\<rparr>))
   \<and> (if vt_size one_key_table16 = 0 then vt_bucket_count one_key_table = 0
       else smallest_bucket_count_fitting id_config (vt_size one_key_table16)
         (vt_bucket_count one_key_table))"
proof -
  have pos: "0 < MAX_LOAD id_config" by (simp add: id_config_def)
  show ?thesis
    using pos shrink_one_key_table16
      shrink_bucket_count [OF pos shrink_one_key_table16]
    by simp
qed

section \<open>The chain invariant\<close>

text \<open>
  The invariants I1 to I5 of the specification, stated bucket by bucket. A set \<open>X\<close> of
  buckets is left out of account: while a key is being moved, its old bucket still has
  a metadatum but is no longer part of any chain. At rest \<open>X\<close> is empty.
\<close>

definition occ :: "('k, 'v) table \<Rightarrow> nat set \<Rightarrow> nat \<Rightarrow> bool" where
  "occ t X i = (i < bucket_count t \<and> md t i \<noteq> VT_EMPTY \<and> i \<notin> X)"

definition hm :: "'k config \<Rightarrow> ('k, 'v) table \<Rightarrow> nat \<Rightarrow> nat" where
  "hm c t i = home_of c t (key (bkt t i))"

definition link :: "('k, 'v) table \<Rightarrow> nat \<Rightarrow> nat" where
  "link t i = displacement_of (md t i)"

definition nxt :: "'k config \<Rightarrow> ('k, 'v) table \<Rightarrow> nat \<Rightarrow> nat" where
  "nxt c t i = probe t (hm c t i) (link t i)"

definition wf_meta :: "'k config \<Rightarrow> ('k, 'v) table \<Rightarrow> nat set \<Rightarrow> bool" where
  "wf_meta c t X =
     (\<forall>i. occ t X i \<longrightarrow>
        frag_of (md t i) = VT_HASH_FRAG (HASH_FN c (key (bkt t i)))
        \<and> (in_home (md t i) \<longleftrightarrow> hm c t i = i)
        \<and> link t i \<noteq> 0)"

definition wf_links :: "'k config \<Rightarrow> ('k, 'v) table \<Rightarrow> nat set \<Rightarrow> bool" where
  "wf_links c t X =
     (\<forall>i. occ t X i \<and> link t i \<noteq> 2047 \<longrightarrow>
        occ t X (nxt c t i) \<and> hm c t (nxt c t i) = hm c t i
        \<and> nxt c t i \<noteq> hm c t i \<and> link t i < link t (nxt c t i))"

definition wf_preds :: "'k config \<Rightarrow> ('k, 'v) table \<Rightarrow> nat set \<Rightarrow> bool" where
  "wf_preds c t X =
     (\<forall>j. occ t X j \<and> hm c t j \<noteq> j \<longrightarrow>
        (\<exists>i. occ t X i \<and> hm c t i = hm c t j \<and> link t i \<noteq> 2047 \<and> nxt c t i = j))"

definition distinct_keys :: "('k, 'v) table \<Rightarrow> nat set \<Rightarrow> bool" where
  "distinct_keys t X =
     (\<forall>i j. occ t X i \<and> occ t X j \<and> key (bkt t i) = key (bkt t j) \<longrightarrow> i = j)"

definition chains_ok :: "'k config \<Rightarrow> ('k, 'v) table \<Rightarrow> nat set \<Rightarrow> bool" where
  "chains_ok c t X =
     (wf_meta c t X \<and> wf_links c t X \<and> wf_preds c t X \<and> distinct_keys t X)"

text \<open>One link of a chain.\<close>

definition step :: "'k config \<Rightarrow> ('k, 'v) table \<Rightarrow> nat set \<Rightarrow> nat \<Rightarrow> nat \<Rightarrow> bool" where
  "step c t X i j = (occ t X i \<and> link t i \<noteq> 2047 \<and> j = nxt c t i)"

lemma link_le: "link t i \<le> 2047"
  by (simp add: link_def displacement_of_le)

lemma step_props:
  assumes "chains_ok c t X" "step c t X i j"
  shows "occ t X i" "occ t X j" "hm c t j = hm c t i" "j \<noteq> hm c t i" "link t i < link t j"
proof -
  from assms(2) have i: "occ t X i" "link t i \<noteq> 2047" "j = nxt c t i"
    by (simp_all add: step_def)
  from assms(1) have "wf_links c t X" by (simp add: chains_ok_def)
  with i(1,2) have "occ t X (nxt c t i) \<and> hm c t (nxt c t i) = hm c t i
      \<and> nxt c t i \<noteq> hm c t i \<and> link t i < link t (nxt c t i)"
    unfolding wf_links_def by blast
  with i show "occ t X i" "occ t X j" "hm c t j = hm c t i" "j \<noteq> hm c t i"
    "link t i < link t j"
    by simp_all
qed

lemma step_deterministic: "step c t X i j \<Longrightarrow> step c t X i j' \<Longrightarrow> j = j'"
  by (simp add: step_def)

lemma path_props:
  assumes ok: "chains_ok c t X" and path: "(step c t X)\<^sup>*\<^sup>* i j" and i: "occ t X i"
  shows "occ t X j \<and> hm c t j = hm c t i \<and> link t i \<le> link t j
    \<and> (i \<noteq> j \<longrightarrow> link t i < link t j)"
  using path
proof (induction rule: rtranclp_induct)
  case base
  with i show ?case by simp
next
  case (step y z)
  from step_props [OF ok step.hyps(2)] step.IH show ?case by auto
qed

lemma path_linear:
  assumes "(step c t X)\<^sup>*\<^sup>* h a" "(step c t X)\<^sup>*\<^sup>* h b"
  shows "(step c t X)\<^sup>*\<^sup>* a b \<or> (step c t X)\<^sup>*\<^sup>* b a"
  using assms(1)
proof (induction rule: rtranclp_induct)
  case base
  with assms(2) show ?case by simp
next
  case (step a' a)
  from step.IH show ?case
  proof
    assume "(step c t X)\<^sup>*\<^sup>* b a'"
    with step.hyps(2) have "(step c t X)\<^sup>*\<^sup>* b a"
      by (rule rtranclp.rtrancl_into_rtrancl [rotated])
    then show ?thesis ..
  next
    assume "(step c t X)\<^sup>*\<^sup>* a' b"
    then show ?thesis
    proof (cases rule: converse_rtranclpE)
      case base
      with step.hyps(2) have "(step c t X)\<^sup>*\<^sup>* b a" by blast
      then show ?thesis ..
    next
      case (step z)
      with \<open>step c t X a' a\<close> have "z = a" by (blast dest: step_deterministic)
      with step have "(step c t X)\<^sup>*\<^sup>* a b" by simp
      then show ?thesis ..
    qed
  qed
qed

lemma reach:
  assumes ok: "chains_ok c t X" and j: "occ t X j"
  shows "(step c t X)\<^sup>*\<^sup>* (hm c t j) j \<and> occ t X (hm c t j) \<and> hm c t (hm c t j) = hm c t j"
  using j
proof (induction "link t j" arbitrary: j rule: less_induct)
  case less
  show ?case
  proof (cases "hm c t j = j")
    case True
    with less.prems show ?thesis by simp
  next
    case False
    with ok less.prems obtain i where i: "occ t X i" "hm c t i = hm c t j" "link t i \<noteq> 2047"
      "nxt c t i = j"
      unfolding chains_ok_def wf_preds_def by blast
    then have st: "step c t X i j" by (simp add: step_def)
    from step_props(5) [OF ok st] have "link t i < link t j" .
    from less.hyps [OF this i(1)] i(2) st show ?thesis by auto
  qed
qed

lemma pred_unique:
  assumes ok: "chains_ok c t X" and a: "step c t X i j" and b: "step c t X i' j"
  shows "i = i'"
proof (rule ccontr)
  assume ne: "i \<noteq> i'"
  have hi: "hm c t i = hm c t j" "hm c t i' = hm c t j"
    using step_props(3) [OF ok a] step_props(3) [OF ok b] by simp_all
  have ri: "(step c t X)\<^sup>*\<^sup>* (hm c t j) i" "(step c t X)\<^sup>*\<^sup>* (hm c t j) i'"
    using reach [OF ok step_props(1) [OF ok a]] reach [OF ok step_props(1) [OF ok b]] hi
    by simp_all
  have contra: False
    if p: "(step c t X)\<^sup>*\<^sup>* u u'" and ne': "u \<noteq> u'" and su: "step c t X u j"
      and su': "step c t X u' j" for u u'
  proof -
    from p ne' obtain z where "step c t X u z" "(step c t X)\<^sup>*\<^sup>* z u'"
      by (auto elim: converse_rtranclpE)
    with su have "(step c t X)\<^sup>*\<^sup>* j u'" by (auto dest: step_deterministic)
    from path_props [OF ok this step_props(2) [OF ok su]] have "link t j \<le> link t u'" by simp
    with step_props(5) [OF ok su'] show False by simp
  qed
  from path_linear [OF ri] show False
  proof
    assume "(step c t X)\<^sup>*\<^sup>* i i'"
    from contra [OF this ne a b] show False .
  next
    assume "(step c t X)\<^sup>*\<^sup>* i' i"
    from contra [OF this _ b a] ne show False by simp
  qed
qed


subsection \<open>The loops that walk a chain\<close>

lemma nxt_probe: "hm c t i = home \<Longrightarrow> probe t home (displacement_of (md t i)) = nxt c t i"
  by (simp add: nxt_def link_def)

lemma step_nxt: "occ t X i \<Longrightarrow> link t i \<noteq> 2047 \<Longrightarrow> step c t X i (nxt c t i)"
  by (simp add: step_def)

lemma step_measure:
  assumes "chains_ok c t X" "step c t X i j"
  shows "2047 - link t j < 2047 - link t i"
  using step_props(5) [OF assms] link_le [of t j] by linarith

lemma chain_lookup_total:
  assumes ok: "chains_ok c t X" and cur: "occ t X cur" "hm c t cur = home"
  shows "\<exists>r. chain_lookup c t home hashfrag k cur = Some r \<and>
    (case r of
       Some b \<Rightarrow> (step c t X)\<^sup>*\<^sup>* cur b \<and> frag_of (md t b) = hashfrag
         \<and> CMPR_FN c (key (bkt t b)) k
     | None \<Rightarrow> (\<forall>b. (step c t X)\<^sup>*\<^sup>* cur b \<longrightarrow>
         \<not> (frag_of (md t b) = hashfrag \<and> CMPR_FN c (key (bkt t b)) k)))"
  using cur
proof (induction "2047 - link t cur" arbitrary: cur rule: less_induct)
  case less
  let ?hit = "\<lambda>b. frag_of (md t b) = hashfrag \<and> CMPR_FN c (key (bkt t b)) k"
  show ?case
  proof (cases "?hit cur")
    case True
    then have "chain_lookup c t home hashfrag k cur = Some (Some cur)"
      by (simp add: chain_lookup_found)
    with True show ?thesis by simp
  next
    case miss: False
    show ?thesis
    proof (cases "link t cur = 2047")
      case True
      then have eq: "chain_lookup c t home hashfrag k cur = Some None"
        using miss by (intro chain_lookup_end) (simp_all add: link_def)
      have "\<not> ?hit b" if "(step c t X)\<^sup>*\<^sup>* cur b" for b
        using that
      proof (cases rule: converse_rtranclpE)
        case base with miss show ?thesis by simp
      next
        case (step z) with True show ?thesis by (simp add: step_def)
      qed
      with eq show ?thesis by simp
    next
      case False
      then have st: "step c t X cur (nxt c t cur)" using less.prems(1) by (rule step_nxt [rotated])
      have eq: "chain_lookup c t home hashfrag k cur
          = chain_lookup c t home hashfrag k (nxt c t cur)"
        using miss False nxt_probe [OF less.prems(2)]
        by (subst chain_lookup_step) (simp_all add: link_def)
      from less.hyps [OF step_measure [OF ok st] step_props(2) [OF ok st]]
        step_props(3) [OF ok st] less.prems(2)
      obtain r where r: "chain_lookup c t home hashfrag k (nxt c t cur) = Some r"
        "case r of
           Some b \<Rightarrow> (step c t X)\<^sup>*\<^sup>* (nxt c t cur) b \<and> ?hit b
         | None \<Rightarrow> (\<forall>b. (step c t X)\<^sup>*\<^sup>* (nxt c t cur) b \<longrightarrow> \<not> ?hit b)"
        by auto
      show ?thesis
      proof (cases r)
        case None
        have "\<not> ?hit b" if "(step c t X)\<^sup>*\<^sup>* cur b" for b
          using that
        proof (cases rule: converse_rtranclpE)
          case base with miss show ?thesis by simp
        next
          case (step z)
          with st have "z = nxt c t cur" by (blast dest: step_deterministic)
          with step r(2) None show ?thesis by simp
        qed
        with eq r(1) None show ?thesis by simp
      next
        case (Some b)
        with r(2) have "(step c t X)\<^sup>*\<^sup>* (nxt c t cur) b" "?hit b" by simp_all
        with st have "(step c t X)\<^sup>*\<^sup>* cur b" by (meson converse_rtranclp_into_rtranclp)
        with eq r(1) Some \<open>?hit b\<close> show ?thesis by simp
      qed
    qed
  qed
qed

lemma find_prev_total:
  assumes ok: "chains_ok c t X" and p: "hm c t p = home" "(step c t X)\<^sup>+\<^sup>+ p x"
  shows "\<exists>q. find_prev t home x p = Some q \<and> step c t X q x \<and> (step c t X)\<^sup>*\<^sup>* p q"
  using p
proof (induction "2047 - link t p" arbitrary: p rule: less_induct)
  case less
  from less.prems(2) obtain z where z: "step c t X p z" "(step c t X)\<^sup>*\<^sup>* z x"
    by (auto dest: tranclpD)
  then have zn: "z = nxt c t p" by (simp add: step_def)
  show ?case
  proof (cases "nxt c t p = x")
    case True
    then have "find_prev t home x p = Some p"
      using nxt_probe [OF less.prems(1)] by (intro find_prev_found) simp
    with z(1) zn True show ?thesis by simp
  next
    case False
    then have eq: "find_prev t home x p = find_prev t home x (nxt c t p)"
      using nxt_probe [OF less.prems(1)] by (subst find_prev_step) simp_all
    from z(2) zn False have "(step c t X)\<^sup>+\<^sup>+ (nxt c t p) x"
      by (auto dest: rtranclpD)
    from less.hyps [OF step_measure [OF ok z(1) [unfolded zn]] _ this]
      step_props(3) [OF ok z(1)] zn less.prems(1)
    obtain q where "find_prev t home x (nxt c t p) = Some q" "step c t X q x"
      "(step c t X)\<^sup>*\<^sup>* (nxt c t p) q"
      by auto
    with eq z(1) zn show ?thesis by (auto intro: converse_rtranclp_into_rtranclp)
  qed
qed

lemma find_insert_location_total:
  assumes ok: "chains_ok c t X" and cand: "occ t X cand" "hm c t cand = home"
    and d: "d < 2047"
  shows "\<exists>p. find_insert_location_loop t home d cand = Some p \<and> (step c t X)\<^sup>*\<^sup>* cand p
    \<and> d < link t p
    \<and> (\<forall>n. (step c t X)\<^sup>*\<^sup>* cand n \<and> (step c t X)\<^sup>+\<^sup>+ n p \<longrightarrow> link t n \<le> d)"
  using cand
proof (induction "2047 - link t cand" arbitrary: cand rule: less_induct)
  case less
  show ?case
  proof (cases "d < link t cand")
    case True
    then have eq: "find_insert_location_loop t home d cand = Some cand"
      by (simp add: find_insert_location_loop_found link_def)
    have "link t n \<le> d" if n: "(step c t X)\<^sup>*\<^sup>* cand n" "(step c t X)\<^sup>+\<^sup>+ n cand" for n
    proof -
      from path_props [OF ok n(1) less.prems(1)] have n1: "occ t X n" "link t cand \<le> link t n"
        by simp_all
      from n(2) have "(step c t X)\<^sup>*\<^sup>* n cand" "n \<noteq> cand \<or> (step c t X)\<^sup>+\<^sup>+ n n"
        by auto
      from n(2) obtain z where z: "step c t X n z" "(step c t X)\<^sup>*\<^sup>* z cand"
        by (auto dest: tranclpD)
      from path_props [OF ok z(2) step_props(2) [OF ok z(1)]] step_props(5) [OF ok z(1)]
      have "link t n < link t cand" by simp
      with n1(2) show ?thesis by simp
    qed
    with eq True show ?thesis by auto
  next
    case False
    with d have ne: "link t cand \<noteq> 2047" by simp
    then have st: "step c t X cand (nxt c t cand)" using less.prems(1) by (rule step_nxt [rotated])
    have eq: "find_insert_location_loop t home d cand
        = find_insert_location_loop t home d (nxt c t cand)"
      using False nxt_probe [OF less.prems(2)]
      by (subst find_insert_location_loop_step) (simp_all add: link_def)
    from less.hyps [OF step_measure [OF ok st] step_props(2) [OF ok st]]
      step_props(3) [OF ok st] less.prems(2)
    obtain p where p: "find_insert_location_loop t home d (nxt c t cand) = Some p"
      "(step c t X)\<^sup>*\<^sup>* (nxt c t cand) p" "d < link t p"
      "\<forall>n. (step c t X)\<^sup>*\<^sup>* (nxt c t cand) n \<and> (step c t X)\<^sup>+\<^sup>+ n p \<longrightarrow> link t n \<le> d"
      by auto
    have "link t n \<le> d" if n: "(step c t X)\<^sup>*\<^sup>* cand n" "(step c t X)\<^sup>+\<^sup>+ n p" for n
      using n(1)
    proof (cases rule: converse_rtranclpE)
      case base with False show ?thesis by simp
    next
      case (step z)
      with st have "z = nxt c t cand" by (blast dest: step_deterministic)
      with step n(2) p(4) show ?thesis by simp
    qed
    moreover from st p(2) have "(step c t X)\<^sup>*\<^sup>* cand p"
      by (meson converse_rtranclp_into_rtranclp)
    ultimately show ?thesis using eq p(1,3) by auto
  qed
qed

lemma find_last_total:
  assumes ok: "chains_ok c t X" and b: "occ t X b" "hm c t b = home" "link t b \<noteq> 2047"
  shows "\<exists>prev last. find_last t home b = Some (prev, last) \<and> (step c t X)\<^sup>*\<^sup>* b prev
    \<and> step c t X prev last \<and> link t last = 2047"
  using b
proof (induction "2047 - link t b" arbitrary: b rule: less_induct)
  case less
  have st: "step c t X b (nxt c t b)" using less.prems(1,3) by (rule step_nxt)
  show ?case
  proof (cases "link t (nxt c t b) = 2047")
    case True
    then have "find_last t home b = Some (b, nxt c t b)"
      using nxt_probe [OF less.prems(2)] by (subst find_last_found) (simp_all add: link_def)
    with st True show ?thesis by auto
  next
    case False
    then have eq: "find_last t home b = find_last t home (nxt c t b)"
      using nxt_probe [OF less.prems(2)] by (subst find_last_step) (simp_all add: link_def)
    from less.hyps [OF step_measure [OF ok st] step_props(2) [OF ok st] _ False]
      step_props(3) [OF ok st] less.prems(2)
    obtain prev last where "find_last t home (nxt c t b) = Some (prev, last)"
      "(step c t X)\<^sup>*\<^sup>* (nxt c t b) prev" "step c t X prev last" "link t last = 2047"
      by auto
    with eq st show ?thesis by (auto intro: converse_rtranclp_into_rtranclp)
  qed
qed


subsection \<open>The search for an empty bucket\<close>

lemma VT_QUADRATIC_Suc: "VT_QUADRATIC (Suc k) = VT_QUADRATIC k + Suc k"
proof -
  have "Suc k * Suc k + Suc k = (k * k + k) + 2 * Suc k" by simp
  then show ?thesis unfolding VT_QUADRATIC_def by (metis div_mult_self4 zero_neq_numeral add.commute)
qed

lemma find_first_empty_loop_spec:
  assumes "1 \<le> unat d" "unat d \<le> 2046" "l = VT_QUADRATIC (unat d)"
  shows "case find_first_empty_loop t home d l of
      Some (e, d') \<Rightarrow> unat d \<le> unat d' \<and> unat d' \<le> 2046 \<and> e = probe t home (unat d')
        \<and> md t e = VT_EMPTY
        \<and> (\<forall>k. unat d \<le> k \<and> k < unat d' \<longrightarrow> md t (probe t home k) \<noteq> VT_EMPTY)
    | None \<Rightarrow> (\<forall>k. unat d \<le> k \<and> k \<le> 2046 \<longrightarrow> md t (probe t home k) \<noteq> VT_EMPTY)"
  using assms
proof (induction "2046 - unat d" arbitrary: d l rule: less_induct)
  case less
  have pr: "(home + l) AND (bucket_count t - 1) = probe t home (unat d)"
    using less.prems(3) by (simp add: probe_def)
  show ?case
  proof (cases "md t (probe t home (unat d)) = VT_EMPTY")
    case True
    then have "find_first_empty_loop t home d l = Some (probe t home (unat d), d)"
      using pr by (simp add: find_first_empty_loop_found)
    with True less.prems show ?thesis by auto
  next
    case full: False
    show ?thesis
    proof (cases "unat d = 2046")
      case True
      then have "d = 2046" by (simp add: word_unat_eq_iff)
      then have "d + 1 = VT_DISPLACEMENT_MASK" by (simp add: VT_DISPLACEMENT_MASK_def)
      then have "find_first_empty_loop t home d l = None"
        using full pr by (simp add: find_first_empty_loop_limit)
      moreover have "md t (probe t home k) \<noteq> VT_EMPTY" if "unat d \<le> k \<and> k \<le> 2046" for k
        using that True full by (cases "k = 2046") simp_all
      ultimately show ?thesis by simp
    next
      case False
      with less.prems(2) have lt: "unat d < 2046" by simp
      have u1: "unat (d + 1) = unat d + 1"
        using lt by (simp add: unat_word_ariths)
      have ne: "d + 1 \<noteq> VT_DISPLACEMENT_MASK"
      proof
        assume "d + 1 = VT_DISPLACEMENT_MASK"
        then have "unat (d + 1) = 2047" by (simp add: VT_DISPLACEMENT_MASK_def)
        with u1 lt show False by simp
      qed
      have eq: "find_first_empty_loop t home d l
          = find_first_empty_loop t home (d + 1) (l + unat (d + 1))"
        using full pr ne by (simp add: find_first_empty_loop_step)
      have l': "l + unat (d + 1) = VT_QUADRATIC (unat (d + 1))"
        using less.prems(3) u1 VT_QUADRATIC_Suc [of "unat d"] by simp
      have IH: "case find_first_empty_loop t home (d + 1) (l + unat (d + 1)) of
          Some (e, d') \<Rightarrow> unat (d + 1) \<le> unat d' \<and> unat d' \<le> 2046
            \<and> e = probe t home (unat d') \<and> md t e = VT_EMPTY
            \<and> (\<forall>k. unat (d + 1) \<le> k \<and> k < unat d' \<longrightarrow> md t (probe t home k) \<noteq> VT_EMPTY)
        | None \<Rightarrow> (\<forall>k. unat (d + 1) \<le> k \<and> k \<le> 2046 \<longrightarrow> md t (probe t home k) \<noteq> VT_EMPTY)"
        using u1 lt l' by (intro less.hyps) simp_all
      have first: "md t (probe t home k) \<noteq> VT_EMPTY" if "k = unat d" for k
        using that full by simp
      show ?thesis
      proof (cases "find_first_empty_loop t home (d + 1) (l + unat (d + 1))")
        case None
        with IH have "\<forall>k. unat d + 1 \<le> k \<and> k \<le> 2046 \<longrightarrow> md t (probe t home k) \<noteq> VT_EMPTY"
          using u1 by simp
        with first have "\<forall>k. unat d \<le> k \<and> k \<le> 2046 \<longrightarrow> md t (probe t home k) \<noteq> VT_EMPTY"
          by (metis Suc_eq_plus1 le_antisym not_less_eq_eq)
        with eq None show ?thesis by simp
      next
        case (Some r)
        obtain e d' where r: "r = (e, d')" by (cases r)
        from IH Some r have *: "unat d + 1 \<le> unat d'" "unat d' \<le> 2046"
          "e = probe t home (unat d')" "md t e = VT_EMPTY"
          "\<forall>k. unat d + 1 \<le> k \<and> k < unat d' \<longrightarrow> md t (probe t home k) \<noteq> VT_EMPTY"
          using u1 by auto
        from *(5) first
        have "\<forall>k. unat d \<le> k \<and> k < unat d' \<longrightarrow> md t (probe t home k) \<noteq> VT_EMPTY"
          by (metis Suc_eq_plus1 le_antisym not_less_eq_eq)
        with eq Some r * show ?thesis by simp
      qed
    qed
  qed
qed

lemma find_first_empty_spec:
  "case find_first_empty t home of
      Some (e, d') \<Rightarrow> 1 \<le> unat d' \<and> unat d' \<le> 2046 \<and> e = probe t home (unat d')
        \<and> md t e = VT_EMPTY
        \<and> (\<forall>k. 1 \<le> k \<and> k < unat d' \<longrightarrow> md t (probe t home k) \<noteq> VT_EMPTY)
    | None \<Rightarrow> (\<forall>k. 1 \<le> k \<and> k \<le> 2046 \<longrightarrow> md t (probe t home k) \<noteq> VT_EMPTY)"
  using find_first_empty_loop_spec [of 1 1 t home]
  by (auto simp: find_first_empty_def VT_QUADRATIC_def split: option.splits)

lemma find_first_empty_Some:
  assumes "find_first_empty t home = Some (e, d)"
  shows "1 \<le> unat d" "unat d \<le> 2046" "e = probe t home (unat d)" "md t e = VT_EMPTY"
    "\<And>k. 1 \<le> k \<Longrightarrow> k < unat d \<Longrightarrow> md t (probe t home k) \<noteq> VT_EMPTY"
proof -
  have *: "1 \<le> unat d \<and> unat d \<le> 2046 \<and> e = probe t home (unat d)
      \<and> md t e = VT_EMPTY
      \<and> (\<forall>k. 1 \<le> k \<and> k < unat d \<longrightarrow> md t (probe t home k) \<noteq> VT_EMPTY)"
    using find_first_empty_spec [of t home] by (auto simp: assms)
  from * show "1 \<le> unat d" by blast
  from * show "unat d \<le> 2046" by blast
  from * show "e = probe t home (unat d)" by blast
  from * show "md t e = VT_EMPTY" by blast
  fix k assume "1 \<le> k" "k < unat d"
  with * show "md t (probe t home k) \<noteq> VT_EMPTY" by blast
qed

lemma find_first_empty_None:
  assumes "find_first_empty t home = None" "1 \<le> k" "k \<le> 2046"
  shows "md t (probe t home k) \<noteq> VT_EMPTY"
proof -
  have "\<forall>k. 1 \<le> k \<and> k \<le> 2046 \<longrightarrow> md t (probe t home k) \<noteq> VT_EMPTY"
    using find_first_empty_spec [of t home] by (auto simp: assms(1))
  with assms(2,3) show ?thesis by blast
qed

lemma find_first_empty_NoneI:
  assumes "\<And>k. 1 \<le> k \<Longrightarrow> k \<le> 2046 \<Longrightarrow> md t (probe t home k) \<noteq> VT_EMPTY"
  shows "find_first_empty t home = None"
proof (cases "find_first_empty t home")
  case None then show ?thesis .
next
  case (Some r)
  obtain e d where r: "r = (e, d)" by (cases r)
  from find_first_empty_Some [OF Some [unfolded r]]
  have "1 \<le> unat d" "unat d \<le> 2046" "md t (probe t home (unat d)) = VT_EMPTY" by simp_all
  with assms [of "unat d"] show ?thesis by simp
qed

lemma probe_less: "0 < bucket_count t \<Longrightarrow> probe t home d < bucket_count t"
  unfolding probe_def by (rule and_mask_less)

subsection \<open>Changing a table at a few buckets\<close>

definition same_except :: "('k, 'v) table \<Rightarrow> ('k, 'v) table \<Rightarrow> nat set \<Rightarrow> bool" where
  "same_except t t' S =
     (bucket_count t' = bucket_count t
      \<and> (\<forall>i<bucket_count t. i \<notin> S \<longrightarrow> md t' i = md t i \<and> bkt t' i = bkt t i))"

lemma frame:
  assumes "same_except t t' S" "i < bucket_count t" "i \<notin> S"
  shows "md t' i = md t i" "bkt t' i = bkt t i" "hm c t' i = hm c t i" "link t' i = link t i"
    "nxt c t' i = nxt c t i"
proof -
  from assms show a: "md t' i = md t i" and b: "bkt t' i = bkt t i"
    by (simp_all add: same_except_def)
  from assms(1) have bc: "bucket_count t' = bucket_count t" by (simp add: same_except_def)
  from b bc show h: "hm c t' i = hm c t i" by (simp add: hm_def home_of_def)
  from a show l: "link t' i = link t i" by (simp add: link_def)
  from h l bc show "nxt c t' i = nxt c t i" by (simp add: nxt_def probe_def)
qed

lemma occ_less: "occ t X i \<Longrightarrow> i < bucket_count t"
  by (simp add: occ_def)

lemma occ_frame:
  assumes "same_except t t' S" "i \<notin> S"
  shows "occ t' X i = occ t X i"
  using assms by (auto simp: occ_def same_except_def)

lemma link_nonzero_occ: "i < bucket_count t \<Longrightarrow> i \<notin> X \<Longrightarrow> link t i \<noteq> 0 \<Longrightarrow> occ t X i"
  by (auto simp: occ_def link_def empty_iff)

lemma chains_ok_cong:
  assumes ok: "chains_ok c t X"
    and bc: "bucket_count t' = bucket_count t"
    and occ: "\<And>i. occ t' X' i = occ t X i"
    and same: "\<And>i. occ t X i \<Longrightarrow> md t' i = md t i \<and> key (bkt t' i) = key (bkt t i)"
  shows "chains_ok c t' X'"
proof -
  have hm: "hm c t' i = hm c t i" if "occ t X i" for i
    using same [OF that] bc by (simp add: hm_def home_of_def)
  have link: "link t' i = link t i" if "occ t X i" for i
    using same [OF that] by (simp add: link_def)
  have nxt: "nxt c t' i = nxt c t i" if "occ t X i" for i
    using hm [OF that] link [OF that] bc by (simp add: nxt_def probe_def)
  from ok have m: "wf_meta c t X" and l: "wf_links c t X" and p: "wf_preds c t X"
    and d: "distinct_keys t X"
    by (simp_all add: chains_ok_def)
  have "wf_meta c t' X'"
    unfolding wf_meta_def
  proof (intro allI impI)
    fix i assume "occ t' X' i"
    then have i: "occ t X i" by (simp add: occ)
    with m have "frag_of (md t i) = VT_HASH_FRAG (HASH_FN c (key (bkt t i)))
        \<and> (in_home (md t i) \<longleftrightarrow> hm c t i = i) \<and> link t i \<noteq> 0"
      unfolding wf_meta_def by blast
    with same [OF i] hm [OF i] link [OF i]
    show "frag_of (md t' i) = VT_HASH_FRAG (HASH_FN c (key (bkt t' i)))
        \<and> (in_home (md t' i) \<longleftrightarrow> hm c t' i = i) \<and> link t' i \<noteq> 0"
      by simp
  qed
  moreover have "wf_links c t' X'"
    unfolding wf_links_def
  proof (intro allI impI)
    fix i assume "occ t' X' i \<and> link t' i \<noteq> 2047"
    then have i: "occ t X i" "link t i \<noteq> 2047" using link [of i] by (auto simp: occ)
    with l have *: "occ t X (nxt c t i)" "hm c t (nxt c t i) = hm c t i"
      "nxt c t i \<noteq> hm c t i" "link t i < link t (nxt c t i)"
      unfolding wf_links_def by blast+
    with i(1) show "occ t' X' (nxt c t' i) \<and> hm c t' (nxt c t' i) = hm c t' i
        \<and> nxt c t' i \<noteq> hm c t' i \<and> link t' i < link t' (nxt c t' i)"
      by (simp add: occ hm link nxt)
  qed
  moreover have "wf_preds c t' X'"
    unfolding wf_preds_def
  proof (intro allI impI)
    fix j assume "occ t' X' j \<and> hm c t' j \<noteq> j"
    then have j: "occ t X j" "hm c t j \<noteq> j" using hm [of j] by (auto simp: occ)
    with p obtain i where "occ t X i" "hm c t i = hm c t j" "link t i \<noteq> 2047" "nxt c t i = j"
      unfolding wf_preds_def by blast
    with j(1) show "\<exists>i. occ t' X' i \<and> hm c t' i = hm c t' j \<and> link t' i \<noteq> 2047
        \<and> nxt c t' i = j"
      by (intro exI [of _ i]) (simp add: occ hm link nxt)
  qed
  moreover have "distinct_keys t' X'"
    unfolding distinct_keys_def
  proof (intro allI impI)
    fix i j assume "occ t' X' i \<and> occ t' X' j \<and> key (bkt t' i) = key (bkt t' j)"
    then have "occ t X i" "occ t X j" "key (bkt t i) = key (bkt t j)"
      using same [of i] same [of j] by (auto simp: occ)
    with d show "i = j" unfolding distinct_keys_def by blast
  qed
  ultimately show ?thesis by (simp add: chains_ok_def)
qed


text \<open>A key is written to a free bucket, which is its home, as a chain of one.\<close>

lemma new_chain:
  assumes ok: "chains_ok c t X"
    and h: "h < bucket_count t" "\<not> occ t X h"
    and same: "same_except t t' {h}"
    and new: "frag_of (md t' h) = VT_HASH_FRAG (HASH_FN c (key (bkt t' h)))"
      "in_home (md t' h)" "link t' h = 2047"
    and home: "hm c t' h = h"
    and fresh: "\<And>i. occ t X i \<Longrightarrow> key (bkt t i) \<noteq> key (bkt t' h)"
  shows "chains_ok c t' (X - {h})"
proof -
  from same have bc: "bucket_count t' = bucket_count t" by (simp add: same_except_def)
  have fr: "md t' i = md t i" "bkt t' i = bkt t i" "hm c t' i = hm c t i"
    "link t' i = link t i" "nxt c t' i = nxt c t i" if "occ t X i" for i
  proof -
    from that h(2) have "i \<notin> {h}" by auto
    from frame [OF same occ_less [OF that] this]
    show "md t' i = md t i" "bkt t' i = bkt t i" "hm c t' i = hm c t i"
      "link t' i = link t i" "nxt c t' i = nxt c t i"
      by simp_all
  qed
  have occ_h: "occ t' (X - {h}) h"
    using new(3) h(1) bc by (intro link_nonzero_occ) simp_all
  have occ': "occ t' (X - {h}) i \<longleftrightarrow> i = h \<or> occ t X i" for i
  proof (cases "i = h")
    case True with occ_h show ?thesis by simp
  next
    case False
    then have "occ t' (X - {h}) i = occ t' X i" by (simp add: occ_def)
    also have "\<dots> = occ t X i" using False by (intro occ_frame [OF same]) simp
    finally show ?thesis using False by simp
  qed
  from ok have m: "wf_meta c t X" and l: "wf_links c t X" and p: "wf_preds c t X"
    and d: "distinct_keys t X"
    by (simp_all add: chains_ok_def)
  have "wf_meta c t' (X - {h})"
    unfolding wf_meta_def
  proof (intro allI impI)
    fix i assume "occ t' (X - {h}) i"
    then consider "i = h" | "occ t X i" by (auto simp: occ')
    then show "frag_of (md t' i) = VT_HASH_FRAG (HASH_FN c (key (bkt t' i)))
        \<and> (in_home (md t' i) \<longleftrightarrow> hm c t' i = i) \<and> link t' i \<noteq> 0"
    proof cases
      case 1 with new home show ?thesis by simp
    next
      case 2
      with m have "frag_of (md t i) = VT_HASH_FRAG (HASH_FN c (key (bkt t i)))
          \<and> (in_home (md t i) \<longleftrightarrow> hm c t i = i) \<and> link t i \<noteq> 0"
        unfolding wf_meta_def by blast
      with fr [OF 2] show ?thesis by simp
    qed
  qed
  moreover have "wf_links c t' (X - {h})"
    unfolding wf_links_def
  proof (intro allI impI)
    fix i assume a: "occ t' (X - {h}) i \<and> link t' i \<noteq> 2047"
    with new(3) have "i \<noteq> h" by auto
    with a have i: "occ t X i" by (simp add: occ')
    with a fr(4) [OF i] have "link t i \<noteq> 2047" by simp
    with i l have *: "occ t X (nxt c t i)" "hm c t (nxt c t i) = hm c t i"
      "nxt c t i \<noteq> hm c t i" "link t i < link t (nxt c t i)"
      unfolding wf_links_def by blast+
    show "occ t' (X - {h}) (nxt c t' i) \<and> hm c t' (nxt c t' i) = hm c t' i
        \<and> nxt c t' i \<noteq> hm c t' i \<and> link t' i < link t' (nxt c t' i)"
      using * fr [OF i] fr [OF *(1)] by (simp add: occ')
  qed
  moreover have "wf_preds c t' (X - {h})"
    unfolding wf_preds_def
  proof (intro allI impI)
    fix j assume a: "occ t' (X - {h}) j \<and> hm c t' j \<noteq> j"
    with home have "j \<noteq> h" by auto
    with a have j: "occ t X j" by (simp add: occ')
    with a fr(3) [OF j] have "hm c t j \<noteq> j" by simp
    with j p obtain i where i: "occ t X i" "hm c t i = hm c t j" "link t i \<noteq> 2047"
      "nxt c t i = j"
      unfolding wf_preds_def by blast
    show "\<exists>i. occ t' (X - {h}) i \<and> hm c t' i = hm c t' j \<and> link t' i \<noteq> 2047
        \<and> nxt c t' i = j"
      using i fr [OF i(1)] fr [OF j] by (intro exI [of _ i]) (simp add: occ')
  qed
  moreover have "distinct_keys t' (X - {h})"
    unfolding distinct_keys_def
  proof (intro allI impI)
    fix i j assume a: "occ t' (X - {h}) i \<and> occ t' (X - {h}) j \<and> key (bkt t' i) = key (bkt t' j)"
    show "i = j"
    proof (cases "i = h")
      case True
      show ?thesis
      proof (rule ccontr)
        assume "i \<noteq> j"
        with True a have j: "occ t X j" by (simp add: occ')
        from fresh [OF j] fr(2) [OF j] a True show False by simp
      qed
    next
      case False
      with a have i: "occ t X i" by (simp add: occ')
      show ?thesis
      proof (cases "j = h")
        case True
        from fresh [OF i] fr(2) [OF i] a True show ?thesis by simp
      next
        case False
        with a have j: "occ t X j" by (simp add: occ')
        with i a fr(2) [OF i] fr(2) [OF j] d show ?thesis
          unfolding distinct_keys_def by auto
      qed
    qed
  qed
  ultimately show ?thesis by (simp add: chains_ok_def)
qed


text \<open>
  A key is taken out of its chain: the link of its predecessor \<open>p\<close> becomes the link of
  the key's bucket \<open>x\<close>, which from now on is left out of account.
\<close>

lemma unlink:
  assumes ok: "chains_ok c t X"
    and st: "step c t X p x"
    and same: "same_except t t' {p}"
    and p: "bkt t' p = bkt t p" "frag_of (md t' p) = frag_of (md t p)"
      "in_home (md t' p) = in_home (md t p)" "link t' p = link t x"
  shows "chains_ok c t' (insert x X)"
proof -
  from same have bc: "bucket_count t' = bucket_count t" by (simp add: same_except_def)
  note sp = step_props [OF ok st]
  from sp(5) have px: "p \<noteq> x" by auto
  from st have nx: "x = nxt c t p" by (simp add: step_def)
  have bk: "bkt t' i = bkt t i" if "i < bucket_count t" for i
    using that p(1) same by (cases "i = p") (simp_all add: same_except_def)
  have hm: "hm c t' i = hm c t i" if "i < bucket_count t" for i
    using bk [OF that] bc by (simp add: hm_def home_of_def)
  have mdo: "md t' i = md t i" if "i < bucket_count t" "i \<noteq> p" for i
    using that same by (simp add: same_except_def)
  have lk: "link t' i = link t i" if "i < bucket_count t" "i \<noteq> p" for i
    using mdo [OF that] by (simp add: link_def)
  have nxo: "nxt c t' i = nxt c t i" if "i < bucket_count t" "i \<noteq> p" for i
    using hm [OF that(1)] lk [OF that] bc by (simp add: nxt_def probe_def)
  have nxp: "nxt c t' p = nxt c t x"
    using hm [OF occ_less [OF sp(1)]] p(4) sp(3) bc by (simp add: nxt_def probe_def)
  have occ_p: "occ t' (insert x X) p"
  proof -
    from sp(5) p(4) have "link t' p \<noteq> 0" by simp
    moreover from sp(1) px have "p \<notin> insert x X" by (simp add: occ_def)
    ultimately show ?thesis using occ_less [OF sp(1)] bc by (intro link_nonzero_occ) simp_all
  qed
  have occ': "occ t' (insert x X) i \<longleftrightarrow> occ t X i \<and> i \<noteq> x" for i
  proof (cases "i = p")
    case True with occ_p sp(1) px show ?thesis by simp
  next
    case False
    then have "occ t' X i = occ t X i" by (intro occ_frame [OF same]) simp
    then show ?thesis by (auto simp: occ_def)
  qed
  from ok have m: "wf_meta c t X" and l: "wf_links c t X" and pr: "wf_preds c t X"
    and d: "distinct_keys t X"
    by (simp_all add: chains_ok_def)
  have "wf_meta c t' (insert x X)"
    unfolding wf_meta_def
  proof (intro allI impI)
    fix i assume "occ t' (insert x X) i"
    then have i: "occ t X i" by (simp add: occ')
    with m have *: "frag_of (md t i) = VT_HASH_FRAG (HASH_FN c (key (bkt t i)))
        \<and> (in_home (md t i) \<longleftrightarrow> hm c t i = i) \<and> link t i \<noteq> 0"
      unfolding wf_meta_def by blast
    show "frag_of (md t' i) = VT_HASH_FRAG (HASH_FN c (key (bkt t' i)))
        \<and> (in_home (md t' i) \<longleftrightarrow> hm c t' i = i) \<and> link t' i \<noteq> 0"
    proof (cases "i = p")
      case True
      with * p sp(5) hm [OF occ_less [OF i]] show ?thesis by simp
    next
      case False
      with * mdo [OF occ_less [OF i]] bk [OF occ_less [OF i]] hm [OF occ_less [OF i]]
        lk [OF occ_less [OF i]]
      show ?thesis by simp
    qed
  qed
  moreover have "wf_links c t' (insert x X)"
    unfolding wf_links_def
  proof (intro allI impI)
    fix i assume a: "occ t' (insert x X) i \<and> link t' i \<noteq> 2047"
    then have i: "occ t X i" "i \<noteq> x" by (simp_all add: occ')
    show "occ t' (insert x X) (nxt c t' i) \<and> hm c t' (nxt c t' i) = hm c t' i
        \<and> nxt c t' i \<noteq> hm c t' i \<and> link t' i < link t' (nxt c t' i)"
    proof (cases "i = p")
      case True
      with a p(4) have "link t x \<noteq> 2047" by simp
      with sp(2) l have *: "occ t X (nxt c t x)" "hm c t (nxt c t x) = hm c t x"
        "nxt c t x \<noteq> hm c t x" "link t x < link t (nxt c t x)"
        unfolding wf_links_def by blast+
      from *(4) have jx: "nxt c t x \<noteq> x" by auto
      from *(4) sp(5) have jp: "nxt c t x \<noteq> p" by auto
      from * jx jp True sp(3) p(4) nxp
        hm [OF occ_less [OF *(1)]] hm [OF occ_less [OF sp(1)]] lk [OF occ_less [OF *(1)] jp]
      show ?thesis by (simp add: occ')
    next
      case False
      with a lk [OF occ_less [OF i(1)]] have "link t i \<noteq> 2047" by simp
      with i(1) l have *: "occ t X (nxt c t i)" "hm c t (nxt c t i) = hm c t i"
        "nxt c t i \<noteq> hm c t i" "link t i < link t (nxt c t i)"
        unfolding wf_links_def by blast+
      have jx: "nxt c t i \<noteq> x"
      proof
        assume "nxt c t i = x"
        with i(1) \<open>link t i \<noteq> 2047\<close> have "step c t X i x" by (simp add: step_def)
        from pred_unique [OF ok this st] False show False by simp
      qed
      have lj: "link t i < link t' (nxt c t i)"
      proof (cases "nxt c t i = p")
        case True
        with *(4) sp(5) p(4) show ?thesis by simp
      next
        case False
        with *(4) lk [OF occ_less [OF *(1)]] show ?thesis by simp
      qed
      from * jx lj False nxo [OF occ_less [OF i(1)]] lk [OF occ_less [OF i(1)]]
        hm [OF occ_less [OF *(1)]] hm [OF occ_less [OF i(1)]]
      show ?thesis by (simp add: occ')
    qed
  qed
  moreover have "wf_preds c t' (insert x X)"
    unfolding wf_preds_def
  proof (intro allI impI)
    fix j assume a: "occ t' (insert x X) j \<and> hm c t' j \<noteq> j"
    then have j: "occ t X j" "j \<noteq> x" by (simp_all add: occ')
    with a hm [OF occ_less [OF j(1)]] have "hm c t j \<noteq> j" by simp
    with j pr obtain i where i: "occ t X i" "hm c t i = hm c t j" "link t i \<noteq> 2047"
      "nxt c t i = j"
      unfolding wf_preds_def by blast
    from i(4) j(2) nx have ip: "i \<noteq> p" by auto
    show "\<exists>i. occ t' (insert x X) i \<and> hm c t' i = hm c t' j \<and> link t' i \<noteq> 2047
        \<and> nxt c t' i = j"
    proof (cases "i = x")
      case True
      with i sp(3) px p(4) nxp occ_p
        hm [OF occ_less [OF sp(1)]] hm [OF occ_less [OF j(1)]]
      show ?thesis by (intro exI [of _ p]) simp
    next
      case False
      with i ip nxo [OF occ_less [OF i(1)]] lk [OF occ_less [OF i(1)]]
        hm [OF occ_less [OF i(1)]] hm [OF occ_less [OF j(1)]]
      show ?thesis by (intro exI [of _ i]) (simp add: occ')
    qed
  qed
  moreover have "distinct_keys t' (insert x X)"
    unfolding distinct_keys_def
  proof (intro allI impI)
    fix i j
    assume a: "occ t' (insert x X) i \<and> occ t' (insert x X) j \<and> key (bkt t' i) = key (bkt t' j)"
    then have "occ t X i" "occ t X j" by (simp_all add: occ')
    with a bk [OF occ_less, of X i] bk [OF occ_less, of X j] d show "i = j"
      unfolding distinct_keys_def by auto
  qed
  ultimately show ?thesis by (simp add: chains_ok_def)
qed


text \<open>
  A key of the chain of \<open>p\<close> is written to the empty bucket \<open>e\<close>, at displacement \<open>d\<close>
  from the home bucket, and linked between \<open>p\<close> and the key that followed \<open>p\<close>.
\<close>

lemma splice:
  assumes ok: "chains_ok c t X"
    and p: "occ t X p"
    and e: "e < bucket_count t" "md t e = VT_EMPTY" "e \<notin> X"
    and ed: "e = probe t (hm c t p) d"
    and d: "1 \<le> d" "d < link t p"
    and preds: "\<And>q. step c t X q p \<Longrightarrow> link t q < d"
    and same: "same_except t t' {e, p}"
    and p': "bkt t' p = bkt t p" "frag_of (md t' p) = frag_of (md t p)"
      "in_home (md t' p) = in_home (md t p)" "link t' p = d"
    and e': "home_of c t (key (bkt t' e)) = hm c t p"
      "frag_of (md t' e) = VT_HASH_FRAG (HASH_FN c (key (bkt t' e)))"
      "\<not> in_home (md t' e)" "link t' e = link t p"
    and fresh: "\<And>i. occ t X i \<Longrightarrow> key (bkt t i) \<noteq> key (bkt t' e)"
  shows "chains_ok c t' X"
proof -
  from same have bc: "bucket_count t' = bucket_count t" by (simp add: same_except_def)
  define h where "h = hm c t p"
  from reach [OF ok p] have oh: "occ t X h" by (simp add: h_def)
  from e(2) have noe: "\<not> occ t X e" by (simp add: occ_def)
  from noe p have ep: "e \<noteq> p" by auto
  from noe oh have eh: "e \<noteq> h" by auto
  have fr: "md t' i = md t i" "bkt t' i = bkt t i" "hm c t' i = hm c t i"
    "link t' i = link t i" "nxt c t' i = nxt c t i" if "i < bucket_count t" "i \<noteq> e" "i \<noteq> p" for i
  proof -
    from that have "i \<notin> {e, p}" by simp
    from frame [OF same that(1) this]
    show "md t' i = md t i" "bkt t' i = bkt t i" "hm c t' i = hm c t i"
      "link t' i = link t i" "nxt c t' i = nxt c t i"
      by simp_all
  qed
  have hmp: "hm c t' p = h" using p'(1) bc by (simp add: hm_def home_of_def h_def)
  have hme: "hm c t' e = h" using e'(1) bc by (simp add: hm_def home_of_def h_def)
  have hm: "hm c t' i = hm c t i" if "occ t X i" for i
  proof (cases "i = p")
    case True with hmp show ?thesis by (simp add: h_def)
  next
    case False
    from that noe have "i \<noteq> e" by auto
    from fr(3) [OF occ_less [OF that] this False] show ?thesis .
  qed
  have nxp: "nxt c t' p = e" using hmp p'(4) ed bc by (simp add: nxt_def probe_def h_def)
  have nxe: "nxt c t' e = nxt c t p" using hme e'(4) bc by (simp add: nxt_def probe_def h_def)
  have occ_e: "occ t' X e"
    using e(1,3) e'(4) d bc by (intro link_nonzero_occ) simp_all
  have occ_p: "occ t' X p"
    using p p'(4) d bc by (intro link_nonzero_occ) (simp_all add: occ_def)
  have occ': "occ t' X i \<longleftrightarrow> i = e \<or> occ t X i" for i
  proof (cases "i = e \<or> i = p")
    case True with occ_e occ_p p show ?thesis by auto
  next
    case False
    then have "occ t' X i = occ t X i" by (intro occ_frame [OF same]) simp
    with False show ?thesis by simp
  qed
  from ok have m: "wf_meta c t X" and l: "wf_links c t X" and pr: "wf_preds c t X"
    and dk: "distinct_keys t X"
    by (simp_all add: chains_ok_def)
  have "wf_meta c t' X"
    unfolding wf_meta_def
  proof (intro allI impI)
    fix i assume "occ t' X i"
    then consider "i = e" | "occ t X i" by (auto simp: occ')
    then show "frag_of (md t' i) = VT_HASH_FRAG (HASH_FN c (key (bkt t' i)))
        \<and> (in_home (md t' i) \<longleftrightarrow> hm c t' i = i) \<and> link t' i \<noteq> 0"
    proof cases
      case 1 with e' d hme eh show ?thesis by auto
    next
      case 2
      with m have *: "frag_of (md t i) = VT_HASH_FRAG (HASH_FN c (key (bkt t i)))
          \<and> (in_home (md t i) \<longleftrightarrow> hm c t i = i) \<and> link t i \<noteq> 0"
        unfolding wf_meta_def by blast
      show ?thesis
      proof (cases "i = p")
        case True with * p' d hm [OF 2] show ?thesis by simp
      next
        case False
        with 2 noe have "i < bucket_count t" "i \<noteq> e" by (auto simp: occ_less)
        with * fr [OF this False] show ?thesis by simp
      qed
    qed
  qed
  moreover have "wf_links c t' X"
    unfolding wf_links_def
  proof (intro allI impI)
    fix i assume a: "occ t' X i \<and> link t' i \<noteq> 2047"
    consider "i = p" | "i = e" | "i \<noteq> p" "i \<noteq> e" by blast
    then show "occ t' X (nxt c t' i) \<and> hm c t' (nxt c t' i) = hm c t' i
        \<and> nxt c t' i \<noteq> hm c t' i \<and> link t' i < link t' (nxt c t' i)"
    proof cases
      case 1
      with nxp occ_e hme hmp eh p'(4) e'(4) d show ?thesis by simp
    next
      case 2
      with a e'(4) have "link t p \<noteq> 2047" by simp
      with p l have *: "occ t X (nxt c t p)" "hm c t (nxt c t p) = hm c t p"
        "nxt c t p \<noteq> hm c t p" "link t p < link t (nxt c t p)"
        unfolding wf_links_def by blast+
      from *(1) noe have je: "nxt c t p \<noteq> e" by auto
      from *(4) have jp: "nxt c t p \<noteq> p" by auto
      from 2 * nxe hme e'(4) hm [OF *(1)] fr(4) [OF occ_less [OF *(1)] je jp]
      show ?thesis by (simp add: occ' h_def)
    next
      case 3
      with a have i: "occ t X i" by (simp add: occ')
      from fr [OF occ_less [OF i] 3(2) 3(1)] a have li: "link t i \<noteq> 2047" by simp
      with i l have *: "occ t X (nxt c t i)" "hm c t (nxt c t i) = hm c t i"
        "nxt c t i \<noteq> hm c t i" "link t i < link t (nxt c t i)"
        unfolding wf_links_def by blast+
      from *(1) noe have je: "nxt c t i \<noteq> e" by auto
      have lj: "link t i < link t' (nxt c t i)"
      proof (cases "nxt c t i = p")
        case True
        with i li have "step c t X i p" by (simp add: step_def)
        from preds [OF this] True p'(4) show ?thesis by simp
      next
        case False
        with *(4) fr(4) [OF occ_less [OF *(1)] je False] show ?thesis by simp
      qed
      from * lj fr [OF occ_less [OF i] 3(2) 3(1)] hm [OF *(1)] hm [OF i]
      show ?thesis by (simp add: occ')
    qed
  qed
  moreover have "wf_preds c t' X"
    unfolding wf_preds_def
  proof (intro allI impI)
    fix j assume a: "occ t' X j \<and> hm c t' j \<noteq> j"
    show "\<exists>i. occ t' X i \<and> hm c t' i = hm c t' j \<and> link t' i \<noteq> 2047 \<and> nxt c t' i = j"
    proof (cases "j = e")
      case True
      have "link t' p \<noteq> 2047" using p'(4) d link_le [of t p] by simp
      with True occ_p hmp hme nxp show ?thesis by (intro exI [of _ p]) simp
    next
      case False
      with a have j: "occ t X j" by (simp add: occ')
      with a hm [OF j] have "hm c t j \<noteq> j" by simp
      with j pr obtain i where i: "occ t X i" "hm c t i = hm c t j" "link t i \<noteq> 2047"
        "nxt c t i = j"
        unfolding wf_preds_def by blast
      from i(1) noe have ie: "i \<noteq> e" by auto
      show ?thesis
      proof (cases "i = p")
        case True
        with i occ_e hme nxe e'(4) hm [OF j] show ?thesis
          by (intro exI [of _ e]) (simp add: h_def)
      next
        case False
        with i fr [OF occ_less [OF i(1)] ie False] hm [OF j] hm [OF i(1)] show ?thesis
          by (intro exI [of _ i]) (simp add: occ')
      qed
    qed
  qed
  moreover have "distinct_keys t' X"
    unfolding distinct_keys_def
  proof (intro allI impI)
    fix i j assume a: "occ t' X i \<and> occ t' X j \<and> key (bkt t' i) = key (bkt t' j)"
    have bk: "key (bkt t' i) = key (bkt t i)" if "occ t X i" for i
    proof (cases "i = p")
      case True with p'(1) show ?thesis by simp
    next
      case False
      from that noe have "i \<noteq> e" by auto
      from fr(2) [OF occ_less [OF that] this False] show ?thesis by simp
    qed
    show "i = j"
    proof (cases "i = e")
      case True
      show ?thesis
      proof (rule ccontr)
        assume "i \<noteq> j"
        with True a have j: "occ t X j" by (simp add: occ')
        from fresh [OF j] bk [OF j] a True show False by simp
      qed
    next
      case False
      with a have i: "occ t X i" by (simp add: occ')
      show ?thesis
      proof (cases "j = e")
        case True
        from fresh [OF i] bk [OF i] a True show ?thesis by simp
      next
        case False
        with a have j: "occ t X j" by (simp add: occ')
        with i a bk [OF i] bk [OF j] dk show ?thesis
          unfolding distinct_keys_def by auto
      qed
    qed
  qed
  ultimately show ?thesis by (simp add: chains_ok_def)
qed


text \<open>A chain of one key is left out of account.\<close>

lemma exclude_single:
  assumes ok: "chains_ok c t X" and b: "occ t X b" "hm c t b = b" "link t b = 2047"
  shows "chains_ok c t (insert b X)"
proof -
  have occ': "occ t (insert b X) i \<longleftrightarrow> occ t X i \<and> i \<noteq> b" for i
    by (auto simp: occ_def)
  from ok have m: "wf_meta c t X" and l: "wf_links c t X" and pr: "wf_preds c t X"
    and d: "distinct_keys t X"
    by (simp_all add: chains_ok_def)
  have "wf_meta c t (insert b X)"
    using m unfolding wf_meta_def occ' by blast
  moreover have "wf_links c t (insert b X)"
    unfolding wf_links_def
  proof (intro allI impI)
    fix i assume "occ t (insert b X) i \<and> link t i \<noteq> 2047"
    then have i: "occ t X i" "link t i \<noteq> 2047" by (simp_all add: occ')
    with l have *: "occ t X (nxt c t i)" "hm c t (nxt c t i) = hm c t i"
      "nxt c t i \<noteq> hm c t i" "link t i < link t (nxt c t i)"
      unfolding wf_links_def by blast+
    from *(2,3) b(2) have "nxt c t i \<noteq> b" by auto
    with * show "occ t (insert b X) (nxt c t i) \<and> hm c t (nxt c t i) = hm c t i
        \<and> nxt c t i \<noteq> hm c t i \<and> link t i < link t (nxt c t i)"
      by (simp add: occ')
  qed
  moreover have "wf_preds c t (insert b X)"
    unfolding wf_preds_def
  proof (intro allI impI)
    fix j assume "occ t (insert b X) j \<and> hm c t j \<noteq> j"
    then have "occ t X j" "hm c t j \<noteq> j" by (simp_all add: occ')
    with pr obtain i where i: "occ t X i" "hm c t i = hm c t j" "link t i \<noteq> 2047"
      "nxt c t i = j"
      unfolding wf_preds_def by blast
    from i(3) b(3) have "i \<noteq> b" by auto
    with i show "\<exists>i. occ t (insert b X) i \<and> hm c t i = hm c t j \<and> link t i \<noteq> 2047
        \<and> nxt c t i = j"
      by (intro exI [of _ i]) (simp add: occ')
  qed
  moreover have "distinct_keys t (insert b X)"
    using d unfolding distinct_keys_def occ' by blast
  ultimately show ?thesis by (simp add: chains_ok_def)
qed

text \<open>The metadatum of a bucket that is left out of account is set to empty.\<close>

lemma zero_excluded:
  assumes ok: "chains_ok c t X" and x: "x \<in> X"
    and same: "same_except t t' {x}" and z: "md t' x = VT_EMPTY"
  shows "chains_ok c t' (X - {x})"
proof (rule chains_ok_cong [OF ok])
  from same show "bucket_count t' = bucket_count t" by (simp add: same_except_def)
next
  fix i
  show "occ t' (X - {x}) i = occ t X i"
  proof (cases "i = x")
    case True
    with x z show ?thesis by (simp add: occ_def)
  next
    case False
    then have "occ t' (X - {x}) i = occ t' X i" by (simp add: occ_def)
    also have "\<dots> = occ t X i" using False by (intro occ_frame [OF same]) simp
    finally show ?thesis .
  qed
next
  fix i assume i: "occ t X i"
  with x have "i \<notin> {x}" by (auto simp: occ_def)
  from frame(1,2) [OF same occ_less [OF i] this]
  show "md t' i = md t i \<and> key (bkt t' i) = key (bkt t i)" by simp
qed

text \<open>
  The key of a bucket is replaced by a key with the same home bucket that occurs
  nowhere else; the hash fragment follows, the flag and the link stay.
\<close>

lemma rekey:
  assumes ok: "chains_ok c t X" and b: "occ t X b"
    and same: "same_except t t' {b}"
    and b': "in_home (md t' b) = in_home (md t b)" "link t' b = link t b"
      "frag_of (md t' b) = VT_HASH_FRAG (HASH_FN c (key (bkt t' b)))"
      "home_of c t (key (bkt t' b)) = hm c t b"
    and fresh: "\<And>i. occ t X i \<Longrightarrow> i \<noteq> b \<Longrightarrow> key (bkt t i) \<noteq> key (bkt t' b)"
  shows "chains_ok c t' X"
proof -
  from same have bc: "bucket_count t' = bucket_count t" by (simp add: same_except_def)
  from ok have m: "wf_meta c t X" and l: "wf_links c t X" and pr: "wf_preds c t X"
    and d: "distinct_keys t X"
    by (simp_all add: chains_ok_def)
  from m b have mb: "frag_of (md t b) = VT_HASH_FRAG (HASH_FN c (key (bkt t b)))"
    "in_home (md t b) \<longleftrightarrow> hm c t b = b" "link t b \<noteq> 0"
    unfolding wf_meta_def by blast+
  have hm: "hm c t' i = hm c t i" if "i < bucket_count t" for i
  proof (cases "i = b")
    case True with b'(4) bc show ?thesis by (simp add: hm_def home_of_def)
  next
    case False
    then have "i \<notin> {b}" by simp
    from frame(3) [OF same that this] show ?thesis .
  qed
  have lk: "link t' i = link t i" if "i < bucket_count t" for i
  proof (cases "i = b")
    case True with b'(2) show ?thesis by simp
  next
    case False
    then have "i \<notin> {b}" by simp
    from frame(4) [OF same that this] show ?thesis .
  qed
  have nx: "nxt c t' i = nxt c t i" if "i < bucket_count t" for i
    using hm [OF that] lk [OF that] bc by (simp add: nxt_def probe_def)
  have occ': "occ t' X i = occ t X i" for i
  proof (cases "i = b")
    case True
    have "occ t' X b"
      using b b'(2) mb(3) bc by (intro link_nonzero_occ) (simp_all add: occ_def)
    with True b show ?thesis by simp
  next
    case False
    then show ?thesis by (intro occ_frame [OF same]) simp
  qed
  have "wf_meta c t' X"
    unfolding wf_meta_def
  proof (intro allI impI)
    fix i assume "occ t' X i"
    then have i: "occ t X i" by (simp add: occ')
    show "frag_of (md t' i) = VT_HASH_FRAG (HASH_FN c (key (bkt t' i)))
        \<and> (in_home (md t' i) \<longleftrightarrow> hm c t' i = i) \<and> link t' i \<noteq> 0"
    proof (cases "i = b")
      case True
      with b' mb hm [OF occ_less [OF b]] show ?thesis by simp
    next
      case False
      then have nb: "i \<notin> {b}" by simp
      from m i have "frag_of (md t i) = VT_HASH_FRAG (HASH_FN c (key (bkt t i)))
          \<and> (in_home (md t i) \<longleftrightarrow> hm c t i = i) \<and> link t i \<noteq> 0"
        unfolding wf_meta_def by blast
      with frame(1,2,4) [OF same occ_less [OF i] nb] hm [OF occ_less [OF i]]
      show ?thesis by simp
    qed
  qed
  moreover have "wf_links c t' X"
    unfolding wf_links_def
  proof (intro allI impI)
    fix i assume a: "occ t' X i \<and> link t' i \<noteq> 2047"
    then have i: "occ t X i" by (simp add: occ')
    with a lk [OF occ_less [OF i]] have "link t i \<noteq> 2047" by simp
    with i l have *: "occ t X (nxt c t i)" "hm c t (nxt c t i) = hm c t i"
      "nxt c t i \<noteq> hm c t i" "link t i < link t (nxt c t i)"
      unfolding wf_links_def by blast+
    with nx [OF occ_less [OF i]] hm [OF occ_less [OF i]] hm [OF occ_less [OF *(1)]]
      lk [OF occ_less [OF i]] lk [OF occ_less [OF *(1)]]
    show "occ t' X (nxt c t' i) \<and> hm c t' (nxt c t' i) = hm c t' i
        \<and> nxt c t' i \<noteq> hm c t' i \<and> link t' i < link t' (nxt c t' i)"
      by (simp add: occ')
  qed
  moreover have "wf_preds c t' X"
    unfolding wf_preds_def
  proof (intro allI impI)
    fix j assume a: "occ t' X j \<and> hm c t' j \<noteq> j"
    then have j: "occ t X j" by (simp add: occ')
    with a hm [OF occ_less [OF j]] have "hm c t j \<noteq> j" by simp
    with j pr obtain i where i: "occ t X i" "hm c t i = hm c t j" "link t i \<noteq> 2047"
      "nxt c t i = j"
      unfolding wf_preds_def by blast
    with nx [OF occ_less [OF i(1)]] hm [OF occ_less [OF i(1)]] hm [OF occ_less [OF j]]
      lk [OF occ_less [OF i(1)]]
    show "\<exists>i. occ t' X i \<and> hm c t' i = hm c t' j \<and> link t' i \<noteq> 2047 \<and> nxt c t' i = j"
      by (intro exI [of _ i]) (simp add: occ')
  qed
  moreover have "distinct_keys t' X"
    unfolding distinct_keys_def
  proof (intro allI impI)
    fix i j assume a: "occ t' X i \<and> occ t' X j \<and> key (bkt t' i) = key (bkt t' j)"
    then have ij: "occ t X i" "occ t X j" by (simp_all add: occ')
    have bk: "key (bkt t' u) = key (bkt t u)" if "occ t X u" "u \<noteq> b" for u
    proof -
      from that have "u \<notin> {b}" by simp
      from frame(2) [OF same occ_less [OF that(1)] this] show ?thesis by simp
    qed
    show "i = j"
    proof (cases "i = b")
      case True
      show ?thesis
      proof (rule ccontr)
        assume "i \<noteq> j"
        with True have "j \<noteq> b" by simp
        from fresh [OF ij(2) this] bk [OF ij(2) this] a True show False by simp
      qed
    next
      case False
      show ?thesis
      proof (cases "j = b")
        case True
        from fresh [OF ij(1) False] bk [OF ij(1) False] a True show ?thesis by simp
      next
        case jb: False
        from a bk [OF ij(1) False] bk [OF ij(2) jb] ij d show ?thesis
          unfolding distinct_keys_def by auto
      qed
    qed
  qed
  ultimately show ?thesis by (simp add: chains_ok_def)
qed

section \<open>Valid tables\<close>

definition arrays_ok :: "('k, 'v) table \<Rightarrow> bool" where
  "arrays_ok t =
     (case metadata t of
        Meta ws \<Rightarrow>
          (case buckets t of
             Buckets bs \<Rightarrow>
               length ws = bucket_count t + 4 \<and> length bs = bucket_count t
               \<and> drop (bucket_count t) ws = replicate 4 0xFFFF
           | _ \<Rightarrow> False)
      | _ \<Rightarrow> False)"

definition count_ok :: "('k, 'v) table \<Rightarrow> bool" where
  "count_ok t = (key_count t = card {i. occ t {} i})"

definition cmpr_ok :: "'k config \<Rightarrow> bool" where
  "cmpr_ok c = (\<forall>a b. CMPR_FN c a b = (a = b))"

text \<open>
  The state of a table between two public operations: the invariants I1 to I7 of the
  specification, without the null bucket handle of I6 and without I8.
\<close>

definition valid :: "'k config \<Rightarrow> ('k, 'v) table \<Rightarrow> bool" where
  "valid c t =
     (if bucket_count t = 0 then key_count t = 0 \<and> metadata t = Placeholder
      else (\<exists>j\<ge>3. bucket_count t = 2 ^ j) \<and> arrays_ok t \<and> count_ok t
        \<and> chains_ok c t {})"

text \<open>The entries of a table: the contents of its occupied buckets.\<close>

definition contents :: "('k, 'v) table \<Rightarrow> ('k, 'v) bucket set" where
  "contents t = {bkt t i | i. occ t {} i}"

lemma arrays_ok_lengths:
  assumes "arrays_ok t"
  shows "length (words (metadata t)) = bucket_count t + 4"
    "length (entries (buckets t)) = bucket_count t"
  using assms by (auto simp: arrays_ok_def split: metadata_ptr.splits buckets_ptr.splits)

lemma md_set_md_ok:
  "arrays_ok t \<Longrightarrow> i < bucket_count t \<Longrightarrow> md (set_md t i w) j = (if j = i then w else md t j)"
  by (simp add: md_set_md arrays_ok_lengths)

lemma bkt_set_bkt_ok:
  "arrays_ok t \<Longrightarrow> i < bucket_count t \<Longrightarrow>
   bkt (set_bkt t i b) j = (if j = i then b else bkt t j)"
  by (simp add: bkt_set_bkt arrays_ok_lengths)

lemma arrays_ok_set_md: "arrays_ok t \<Longrightarrow> i < bucket_count t \<Longrightarrow> arrays_ok (set_md t i w)"
  by (auto simp: arrays_ok_def set_md_def split: metadata_ptr.splits buckets_ptr.splits)

lemma arrays_ok_set_bkt: "arrays_ok t \<Longrightarrow> arrays_ok (set_bkt t i b)"
  by (auto simp: arrays_ok_def set_bkt_def split: metadata_ptr.splits buckets_ptr.splits)

lemma arrays_ok_key_count [simp]: "arrays_ok (t\<lparr>key_count := n\<rparr>) = arrays_ok t"
  by (simp add: arrays_ok_def split: metadata_ptr.splits buckets_ptr.splits)

lemma bucket_count_key_count [simp]: "bucket_count (t\<lparr>key_count := n\<rparr>) = bucket_count t"
  by simp

lemma occ_key_count [simp]: "occ (t\<lparr>key_count := n\<rparr>) X i = occ t X i"
  by (simp add: occ_def)

lemma chains_ok_key_count [simp]: "chains_ok c (t\<lparr>key_count := n\<rparr>) X = chains_ok c t X"
proof
  assume "chains_ok c (t\<lparr>key_count := n\<rparr>) X"
  then show "chains_ok c t X" by (rule chains_ok_cong) simp_all
next
  assume "chains_ok c t X"
  then show "chains_ok c (t\<lparr>key_count := n\<rparr>) X" by (rule chains_ok_cong) simp_all
qed

lemma contents_key_count [simp]: "contents (t\<lparr>key_count := n\<rparr>) = contents t"
  by (simp add: contents_def)

lemma finite_occ: "finite {i. occ t X i}"
proof (rule finite_subset)
  show "{i. occ t X i} \<subseteq> {..<bucket_count t}" by (auto simp: occ_def)
qed simp

lemma card_occ_insert:
  assumes "\<And>i. occ t' {} i \<longleftrightarrow> i = e \<or> occ t {} i" "\<not> occ t {} e"
  shows "card {i. occ t' {} i} = card {i. occ t {} i} + 1"
proof -
  have "{i. occ t' {} i} = insert e {i. occ t {} i}" using assms(1) by auto
  with assms(2) finite_occ [of t "{}"] show ?thesis by simp
qed

lemma card_occ_remove:
  assumes "\<And>i. occ t' {} i \<longleftrightarrow> occ t {} i \<and> i \<noteq> x" "occ t {} x"
  shows "card {i. occ t' {} i} = card {i. occ t {} i} - 1"
proof -
  have "{i. occ t' {} i} = {i. occ t {} i} - {x}" using assms(1) by auto
  with assms(2) finite_occ [of t "{}"] show ?thesis by simp
qed


subsection \<open>Lookup in a valid table\<close>

lemma home_of_less: "0 < bucket_count t \<Longrightarrow> home_of c t k < bucket_count t"
  unfolding home_of_def by (rule and_mask_less)

lemma not_in_home_empty: "\<not> in_home VT_EMPTY"
  by (simp add: in_home_def VT_EMPTY_def)

lemma in_home_occ:
  assumes "chains_ok c t X" "i < bucket_count t" "i \<notin> X" "in_home (md t i)"
  shows "occ t X i" "hm c t i = i"
proof -
  from assms(4) not_in_home_empty have "md t i \<noteq> VT_EMPTY" by auto
  with assms(2,3) show o: "occ t X i" by (simp add: occ_def)
  from assms(1) have "wf_meta c t X" by (simp add: chains_ok_def)
  with o assms(4) show "hm c t i = i" unfolding wf_meta_def by blast
qed

lemma home_in_home:
  assumes ok: "chains_ok c t X" and b: "occ t X b"
  shows "occ t X (hm c t b)" "in_home (md t (hm c t b))"
proof -
  from reach [OF ok b] have o: "occ t X (hm c t b)" and h: "hm c t (hm c t b) = hm c t b"
    by simp_all
  from o show "occ t X (hm c t b)" .
  from ok have "wf_meta c t X" by (simp add: chains_ok_def)
  with o h show "in_home (md t (hm c t b))" unfolding wf_meta_def by blast
qed

lemma absent_if_home_not_in_home:
  assumes ok: "chains_ok c t {}" and nh: "\<not> in_home (md t (home_of c t k))"
    and b: "occ t {} b"
  shows "key (bkt t b) \<noteq> k"
proof
  assume "key (bkt t b) = k"
  then have "hm c t b = home_of c t k" by (simp add: hm_def)
  with home_in_home(2) [OF ok b] nh show False by simp
qed

lemma chain_lookup_spec:
  assumes ok: "chains_ok c t {}" and cm: "cmpr_ok c" and bc: "0 < bucket_count t"
    and ih: "in_home (md t (home_of c t k))"
  shows "\<exists>r. chain_lookup c t (home_of c t k) (VT_HASH_FRAG (HASH_FN c k)) k (home_of c t k)
      = Some r
    \<and> (case r of
         Some b \<Rightarrow> occ t {} b \<and> key (bkt t b) = k
       | None \<Rightarrow> (\<forall>b. occ t {} b \<longrightarrow> key (bkt t b) \<noteq> k))"
proof -
  let ?home = "home_of c t k" and ?frag = "VT_HASH_FRAG (HASH_FN c k)"
  from in_home_occ [OF ok home_of_less [OF bc] _ ih]
  have oh: "occ t {} ?home" and hh: "hm c t ?home = ?home" by simp_all
  from chain_lookup_total [OF ok oh hh, of ?frag k]
  obtain r where r: "chain_lookup c t ?home ?frag k ?home = Some r"
    "case r of
       Some b \<Rightarrow> (step c t {})\<^sup>*\<^sup>* ?home b \<and> frag_of (md t b) = ?frag
         \<and> CMPR_FN c (key (bkt t b)) k
     | None \<Rightarrow> (\<forall>b. (step c t {})\<^sup>*\<^sup>* ?home b \<longrightarrow>
         \<not> (frag_of (md t b) = ?frag \<and> CMPR_FN c (key (bkt t b)) k))"
    by blast
  have "case r of
         Some b \<Rightarrow> occ t {} b \<and> key (bkt t b) = k
       | None \<Rightarrow> (\<forall>b. occ t {} b \<longrightarrow> key (bkt t b) \<noteq> k)"
  proof (cases r)
    case (Some b)
    with r(2) have p: "(step c t {})\<^sup>*\<^sup>* ?home b" and "CMPR_FN c (key (bkt t b)) k"
      by simp_all
    with cm have "key (bkt t b) = k" by (simp add: cmpr_ok_def)
    moreover from path_props [OF ok p oh] have "occ t {} b" by simp
    ultimately show ?thesis using Some by simp
  next
    case None
    have "key (bkt t b) \<noteq> k" if b: "occ t {} b" for b
    proof
      assume k: "key (bkt t b) = k"
      then have "hm c t b = ?home" by (simp add: hm_def)
      with reach [OF ok b] have p: "(step c t {})\<^sup>*\<^sup>* ?home b" by simp
      from ok have "wf_meta c t {}" by (simp add: chains_ok_def)
      with b k have "frag_of (md t b) = ?frag" unfolding wf_meta_def by blast
      moreover from cm k have "CMPR_FN c (key (bkt t b)) k" by (simp add: cmpr_ok_def)
      ultimately show False using r(2) None p by simp
    qed
    with None show ?thesis by simp
  qed
  with r(1) show ?thesis by blast
qed


subsection \<open>Writing a key to its home bucket\<close>

lemmas table_simps = md_set_md_ok bkt_set_bkt_ok arrays_ok_set_md arrays_ok_set_bkt

lemma place_home:
  fixes t :: "('k, 'v) table" and v :: 'v
  assumes arr: "arrays_ok t" and ok: "chains_ok c t X"
    and h: "h = home_of c t k" "0 < bucket_count t"
    and free: "\<not> occ t X h"
    and fresh: "\<And>i. occ t X i \<Longrightarrow> key (bkt t i) \<noteq> k"
  defines "t' \<equiv> set_md (set_bkt t h \<lparr>key = k, val = v\<rparr>) h
      (VT_HASH_FRAG (HASH_FN c k) OR VT_IN_HOME_BUCKET_MASK OR VT_DISPLACEMENT_MASK)"
  shows "chains_ok c t' (X - {h})" "arrays_ok t'"
    "\<And>i. occ t' (X - {h}) i \<longleftrightarrow> i = h \<or> occ t X i"
    "\<And>i. bkt t' i = (if i = h then \<lparr>key = k, val = v\<rparr> else bkt t i)"
proof -
  have hl: "h < bucket_count t" using h by (simp add: home_of_less)
  have md': "md t' i = (if i = h then VT_HASH_FRAG (HASH_FN c k) OR VT_IN_HOME_BUCKET_MASK
      OR VT_DISPLACEMENT_MASK else md t i)" for i
    using arr hl by (simp add: t'_def table_simps)
  show bk': "bkt t' i = (if i = h then \<lparr>key = k, val = v\<rparr> else bkt t i)" for i
    using arr hl by (simp add: t'_def table_simps)
  show arr': "arrays_ok t'" using arr hl by (simp add: t'_def table_simps)
  have bc: "bucket_count t' = bucket_count t" by (simp add: t'_def)
  have same: "same_except t t' {h}" by (simp add: same_except_def md' bk' bc)
  have fields: "frag_of (md t' h) = VT_HASH_FRAG (HASH_FN c (key (bkt t' h)))"
    "in_home (md t' h)" "link t' h = 2047"
    by (simp_all add: md' bk' link_def new_chain_meta)
  have home: "hm c t' h = h" using h bc by (simp add: hm_def bk' home_of_def)
  have fr: "key (bkt t i) \<noteq> key (bkt t' h)" if "occ t X i" for i
    using fresh [OF that] by (simp add: bk')
  show "chains_ok c t' (X - {h})"
    by (rule new_chain [OF ok hl free same fields home fr])
  show "occ t' (X - {h}) i \<longleftrightarrow> i = h \<or> occ t X i" for i
  proof (cases "i = h")
    case True
    have "occ t' (X - {h}) h"
      using fields(3) hl bc by (intro link_nonzero_occ) simp_all
    with True show ?thesis by simp
  next
    case False
    then show ?thesis by (simp add: occ_def md' bc)
  qed
qed


subsection \<open>Linking a key into the chain of its home bucket\<close>

lemma link_new:
  fixes t :: "('k, 'v) table" and b :: "('k, 'v) bucket"
  assumes arr: "arrays_ok t" and ok: "chains_ok c t X" and bc: "0 < bucket_count t"
    and home: "occ t X home" "hm c t home = home"
    and ff: "find_first_empty t home = Some (e, d)" and eX: "e \<notin> X"
    and kb: "home_of c t (key b) = home"
    and fresh: "\<And>i. occ t X i \<Longrightarrow> key (bkt t i) \<noteq> key b"
  shows "\<exists>p. find_insert_location_in_chain t home (unat d) = Some p \<and> p < bucket_count t
    \<and> e < bucket_count t \<and> p \<noteq> e
    \<and> (let t' = set_md (set_md (set_bkt t e b) e
              (VT_HASH_FRAG (HASH_FN c (key b)) OR (md t p AND VT_DISPLACEMENT_MASK))) p
            ((md t p AND NOT VT_DISPLACEMENT_MASK) OR d)
       in chains_ok c t' X \<and> arrays_ok t' \<and> (\<forall>i. occ t' X i \<longleftrightarrow> i = e \<or> occ t X i)
         \<and> (\<forall>i. bkt t' i = (if i = e then b else bkt t i)))"
proof -
  note fe = find_first_empty_Some [OF ff]
  have el: "e < bucket_count t" using fe(3) bc by (simp add: probe_less)
  from fe(2) have d47: "unat d < 2047" by simp
  from find_insert_location_total [OF ok home d47]
  obtain p where p: "find_insert_location_loop t home (unat d) home = Some p"
    "(step c t X)\<^sup>*\<^sup>* home p" "unat d < link t p"
    "\<forall>n. (step c t X)\<^sup>*\<^sup>* home n \<and> (step c t X)\<^sup>+\<^sup>+ n p \<longrightarrow> link t n \<le> unat d"
    by blast
  from path_props [OF ok p(2) home(1)] home(2)
  have op: "occ t X p" and hp: "hm c t p = home" by simp_all
  have pl: "p < bucket_count t" using op by (rule occ_less)
  from fe(4) op have pe: "p \<noteq> e" by (auto simp: occ_def)
  let ?fw = "VT_HASH_FRAG (HASH_FN c (key b))"
  let ?t' = "set_md (set_md (set_bkt t e b) e (?fw OR (md t p AND VT_DISPLACEMENT_MASK))) p
            ((md t p AND NOT VT_DISPLACEMENT_MASK) OR d)"
  have md': "md ?t' i = (if i = p then (md t p AND NOT VT_DISPLACEMENT_MASK) OR d
      else if i = e then ?fw OR (md t p AND VT_DISPLACEMENT_MASK) else md t i)" for i
    using arr el pl by (simp add: table_simps)
  have bk': "bkt ?t' i = (if i = e then b else bkt t i)" for i
    using arr el pl by (simp add: table_simps)
  have bk'': "bkt (set_bkt t e b) i = (if i = e then b else bkt t i)" for i
    using arr el by (simp add: table_simps)
  have arr': "arrays_ok ?t'" using arr el pl by (simp add: table_simps)
  have bc': "bucket_count ?t' = bucket_count t" by simp
  have same: "same_except t ?t' {e, p}" by (simp add: same_except_def md' bk'')
  have fwf: "frag_of ?fw = ?fw" by simp
  have d47': "unat d \<le> 2047" using d47 by simp
  have pf: "bkt ?t' p = bkt t p" "frag_of (md ?t' p) = frag_of (md t p)"
    "in_home (md ?t' p) = in_home (md t p)" "link ?t' p = unat d"
    using pe by (simp_all add: md' bk'' link_def relink_meta [OF d47'])
  have ef: "home_of c t (key (bkt ?t' e)) = hm c t p"
    "frag_of (md ?t' e) = VT_HASH_FRAG (HASH_FN c (key (bkt ?t' e)))"
    "\<not> in_home (md ?t' e)" "link ?t' e = link t p"
    using pe kb hp by (simp_all add: md' bk'' link_def linked_meta [OF fwf])
  have preds: "link t q < unat d" if q: "step c t X q p" for q
  proof -
    note sq = step_props [OF ok q]
    from sq(3) hp have hq: "hm c t q = home" by simp
    with reach [OF ok sq(1)] have "(step c t X)\<^sup>*\<^sup>* home q" by simp
    moreover from q have "(step c t X)\<^sup>+\<^sup>+ q p" by blast
    ultimately have le: "link t q \<le> unat d" using p(4) by blast
    have "link t q \<noteq> unat d"
    proof
      assume "link t q = unat d"
      with hq fe(3) have "nxt c t q = e" by (simp add: nxt_def)
      with q pe show False by (simp add: step_def)
    qed
    with le show ?thesis by simp
  qed
  have ed: "e = probe t (hm c t p) (unat d)" using fe(3) hp by simp
  have fr: "key (bkt t i) \<noteq> key (bkt ?t' e)" if "occ t X i" for i
    using fresh [OF that] by (simp add: bk'')
  have ok': "chains_ok c ?t' X"
    by (rule splice [OF ok op el fe(4) eX ed fe(1) p(3) preds same pf ef fr])
  have occ': "occ ?t' X i \<longleftrightarrow> i = e \<or> occ t X i" for i
  proof -
    have "occ ?t' X e"
      using el eX ef(4) p(3) by (intro link_nonzero_occ) simp_all
    moreover have "occ ?t' X p"
      using pl op pf(4) fe(1) by (intro link_nonzero_occ) (simp_all add: occ_def)
    moreover have "occ ?t' X i = occ t X i" if "i \<noteq> e" "i \<noteq> p"
      using that by (simp add: occ_def md')
    ultimately show ?thesis using op by blast
  qed
  have "find_insert_location_in_chain t home (unat d) = Some p"
    using p(1) by (simp add: find_insert_location_in_chain_def)
  with pl el pe ok' arr' occ' bk' show ?thesis by (simp add: Let_def)
qed

end
